theory Spec2Isabelle
  imports Main "HOL-Library.Sublist"
begin

section \<open>Errors, task outcomes and channels\<close>

text \<open>
  A Go \<^verbatim>\<open>error\<close> value is modelled as \<open>error option\<close>: \<open>None\<close> is \<^verbatim>\<open>nil\<close>.
  \<open>Err msg\<close> is an error made by \<^verbatim>\<open>errors.New\<close> or \<^verbatim>\<open>fmt.Errorf\<close> with text \<open>msg\<close>;
  \<open>CtxErr\<close> is the value of \<^verbatim>\<open>ctx.Err()\<close> of a cancelled context.
\<close>

datatype error = Err string | CtxErr

text \<open>
  A \<^verbatim>\<open>Task\<close> is \<^verbatim>\<open>func(ctx context.Context) error\<close>. The orchestrator sees only how a call
  ends: it returns an error value, or it panics with a payload (given by its \<^verbatim>\<open>%v\<close>
  rendering). A task may poll its context, so the outcome is a function of whether the
  context is cancelled when the task finishes.
\<close>

datatype outcome = Returns "error option" | Panics string

type_synonym task = "bool \<Rightarrow> outcome"

text \<open>\<^verbatim>\<open>fmt.Errorf("panic recovered: %v", r)\<close>\<close>

definition panic_error :: "string \<Rightarrow> error" where
  "panic_error r = Err (''panic recovered: '' @ r)"

text \<open>
  A buffered Go channel: capacity, queued values (oldest first) and the closed flag.
  A send blocks on a full buffer and panics on a closed channel; a receive takes the oldest
  value, yields the zero value on a closed and drained channel, and blocks otherwise;
  closing a closed channel panics.
\<close>

record 'a chan =
  ch_cap :: nat
  ch_buf :: "'a list"
  ch_closed :: bool

definition make_chan :: "nat \<Rightarrow> 'a chan" where
  "make_chan n = \<lparr>ch_cap = n, ch_buf = [], ch_closed = False\<rparr>"

datatype 'a sent = Sent "'a chan" | SendBlocks | SendPanics

definition chan_send :: "'a \<Rightarrow> 'a chan \<Rightarrow> 'a sent" where
  "chan_send v c =
     (if ch_closed c then SendPanics
      else if length (ch_buf c) < ch_cap c then Sent (c\<lparr>ch_buf := ch_buf c @ [v]\<rparr>)
      else SendBlocks)"

datatype 'a received = Received 'a "'a chan" | ReceivedClosed | ReceiveBlocks

definition chan_recv :: "'a chan \<Rightarrow> 'a received" where
  "chan_recv c =
     (case ch_buf c of
        v # vs \<Rightarrow> Received v (c\<lparr>ch_buf := vs\<rparr>)
      | [] \<Rightarrow> if ch_closed c then ReceivedClosed else ReceiveBlocks)"

definition chan_close :: "'a chan \<Rightarrow> 'a chan option" where
  "chan_close c = (if ch_closed c then None else Some (c\<lparr>ch_closed := True\<rparr>))"

text \<open>
  The result of an operation that may block or panic: \<open>Ok s\<close> returns with the new state,
  \<open>Block\<close> does not return in the current state, \<open>Panic s\<close> panics leaving state \<open>s\<close>.
\<close>

datatype 's sync = Ok 's | Block | Panic 's

section \<open>Sail\<close>

text \<open>
  The goroutines of one call of \<^verbatim>\<open>Sail(ctx, tasks...)\<close> and their program points.

  The caller's goroutine: \<open>MLoop i\<close> is the head of the \<^verbatim>\<open>for\<close> loop at task \<open>i\<close>,
  \<open>MSelect\<close> the final \<^verbatim>\<open>select\<close>, \<open>MReturned r\<close> the return of \<open>r\<close>.

  The goroutine of task \<open>i\<close>: \<open>GIdle\<close> before the loop reaches it, \<open>GSkipped\<close> when the loop
  skipped it, \<open>GReady\<close> once started with the task still to finish, \<open>GSend e\<close> when the task
  returned the error \<open>e\<close> and the body is about to call \<^verbatim>\<open>sendErr(e)\<close>, \<open>GRecover e\<close> when a
  panic was recovered and the deferred function is about to call \<^verbatim>\<open>sendErr(e)\<close>, \<open>GFin\<close>
  before the deferred \<^verbatim>\<open>wg.Done()\<close>, \<open>GDone\<close> at the end.

  The goroutine that closes the channel: not started, at \<^verbatim>\<open>wg.Wait()\<close>, at
  \<^verbatim>\<open>close(errChan)\<close>, done.
\<close>

datatype main_pc = MLoop nat | MSelect | MReturned "error option"

datatype go_pc = GIdle | GSkipped | GReady | GSend error | GRecover error | GFin | GDone

datatype closer_pc = CIdle | CWait | CClose | CDone

record sail_state =
  tasks :: "task list"
  cancelled :: bool
  wg :: nat
  once :: bool
  errChan :: "error chan"
  main :: main_pc
  gos :: "go_pc list"
  closer :: closer_pc
  crashed :: bool

text \<open>
  The state on entry, after \<^verbatim>\<open>wg.Add(len(tasks))\<close>, \<^verbatim>\<open>make(chan error, 1)\<close> and the
  declaration of \<^verbatim>\<open>once\<close>. The first argument says whether \<^verbatim>\<open>ctx\<close> is already cancelled.
\<close>

definition Sail_init :: "bool \<Rightarrow> task list \<Rightarrow> sail_state" where
  "Sail_init c ts =
     \<lparr>tasks = ts, cancelled = c, wg = length ts, once = False, errChan = make_chan 1,
      main = MLoop 0, gos = replicate (length ts) GIdle, closer = CIdle, crashed = False\<rparr>"

text \<open>
  \<^verbatim>\<open>sendErr := func(err error) { once.Do(func() { errChan <- err }) }\<close>.
  \<^verbatim>\<open>sync.Once\<close> marks itself done when the function returns or panics.
\<close>

definition sendErr :: "error \<Rightarrow> sail_state \<Rightarrow> sail_state sync" where
  "sendErr err s =
     (if once s then Ok s
      else case chan_send err (errChan s) of
             Sent c \<Rightarrow> Ok (s\<lparr>once := True, errChan := c\<rparr>)
           | SendBlocks \<Rightarrow> Block
           | SendPanics \<Rightarrow> Panic (s\<lparr>once := True\<rparr>))"

text \<open>\<^verbatim>\<open>wg.Done()\<close>: a negative counter panics.\<close>

definition wg_Done :: "sail_state \<Rightarrow> sail_state" where
  "wg_Done s = (if wg s = 0 then s\<lparr>crashed := True\<rparr> else s\<lparr>wg := wg s - 1\<rparr>)"

text \<open>
  One step of the caller's goroutine outside the \<^verbatim>\<open>select\<close>: an iteration of the loop
  (skip the task when \<^verbatim>\<open>ctx.Err() != nil\<close>, else start its goroutine), or, after the loop,
  the start of the closing goroutine.
\<close>

definition main_step :: "sail_state \<Rightarrow> sail_state option" where
  "main_step s =
     (case main s of
        MLoop i \<Rightarrow>
          if i < length (tasks s) then
            (if cancelled s
             then Some ((wg_Done s)\<lparr>main := MLoop (Suc i), gos := (gos s)[i := GSkipped]\<rparr>)
             else Some (s\<lparr>main := MLoop (Suc i), gos := (gos s)[i := GReady]\<rparr>))
          else Some (s\<lparr>main := MSelect, closer := CWait\<rparr>)
      | _ \<Rightarrow> None)"

text \<open>
  The two cases of the final \<^verbatim>\<open>select\<close>. When both are ready Go picks either one, so each
  is a step of its own.
\<close>

definition select_err :: "sail_state \<Rightarrow> sail_state option" where
  "select_err s =
     (case main s of
        MSelect \<Rightarrow>
          (case chan_recv (errChan s) of
             Received e c \<Rightarrow> Some (s\<lparr>errChan := c, main := MReturned (Some e)\<rparr>)
           | ReceivedClosed \<Rightarrow> Some (s\<lparr>main := MReturned None\<rparr>)
           | ReceiveBlocks \<Rightarrow> None)
      | _ \<Rightarrow> None)"

definition select_done :: "sail_state \<Rightarrow> sail_state option" where
  "select_done s =
     (case main s of
        MSelect \<Rightarrow> if cancelled s then Some (s\<lparr>main := MReturned (Some CtxErr)\<rparr>) else None
      | _ \<Rightarrow> None)"

text \<open>
  One step of the goroutine of task \<open>i\<close>: the task finishes; or \<^verbatim>\<open>sendErr\<close> in the body
  (a panic there is recovered by the deferred function like a panic of the task); or
  \<^verbatim>\<open>sendErr\<close> in the deferred function (a panic there is not recovered); or \<^verbatim>\<open>wg.Done()\<close>.
\<close>

definition go_step :: "nat \<Rightarrow> sail_state \<Rightarrow> sail_state option" where
  "go_step i s =
     (if i < length (gos s) \<and> i < length (tasks s) then
        (case gos s ! i of
           GReady \<Rightarrow>
             (case (tasks s ! i) (cancelled s) of
                Returns None \<Rightarrow> Some (s\<lparr>gos := (gos s)[i := GFin]\<rparr>)
              | Returns (Some e) \<Rightarrow> Some (s\<lparr>gos := (gos s)[i := GSend e]\<rparr>)
              | Panics r \<Rightarrow> Some (s\<lparr>gos := (gos s)[i := GRecover (panic_error r)]\<rparr>))
         | GSend e \<Rightarrow>
             (case sendErr e s of
                Ok s' \<Rightarrow> Some (s'\<lparr>gos := (gos s)[i := GFin]\<rparr>)
              | Block \<Rightarrow> None
              | Panic s' \<Rightarrow>
                  Some (s'\<lparr>gos := (gos s)[i := GRecover (panic_error ''send on closed channel'')]\<rparr>))
         | GRecover e \<Rightarrow>
             (case sendErr e s of
                Ok s' \<Rightarrow> Some (s'\<lparr>gos := (gos s)[i := GFin]\<rparr>)
              | Block \<Rightarrow> None
              | Panic s' \<Rightarrow> Some (s'\<lparr>crashed := True\<rparr>))
         | GFin \<Rightarrow> Some ((wg_Done s)\<lparr>gos := (gos s)[i := GDone]\<rparr>)
         | _ \<Rightarrow> None)
      else None)"

text \<open>The closing goroutine: \<^verbatim>\<open>wg.Wait()\<close> returns when the counter is zero, then \<^verbatim>\<open>close(errChan)\<close>.\<close>

definition closer_step :: "sail_state \<Rightarrow> sail_state option" where
  "closer_step s =
     (case closer s of
        CWait \<Rightarrow> if wg s = 0 then Some (s\<lparr>closer := CClose\<rparr>) else None
      | CClose \<Rightarrow>
          (case chan_close (errChan s) of
             Some c \<Rightarrow> Some (s\<lparr>errChan := c, closer := CDone\<rparr>)
           | None \<Rightarrow> Some (s\<lparr>crashed := True\<rparr>))
      | _ \<Rightarrow> None)"

text \<open>
  The events of a run: the context is cancelled from outside, or one goroutine takes its
  next step. A crashed process takes no step. \<open>None\<close> means the event cannot happen in
  the state (the goroutine is blocked, finished or not started).
\<close>

datatype sail_event = Cancel | MainStep | SelectErr | SelectDone | GoStep nat | CloserStep

definition Sail_step :: "sail_event \<Rightarrow> sail_state \<Rightarrow> sail_state option" where
  "Sail_step ev s =
     (if crashed s then None
      else case ev of
             Cancel \<Rightarrow> Some (s\<lparr>cancelled := True\<rparr>)
           | MainStep \<Rightarrow> main_step s
           | SelectErr \<Rightarrow> select_err s
           | SelectDone \<Rightarrow> select_done s
           | GoStep i \<Rightarrow> go_step i s
           | CloserStep \<Rightarrow> closer_step s)"

text \<open>A run of \<^verbatim>\<open>Sail\<close> under a schedule, the list of events in the order they happen.\<close>

fun Sail :: "sail_event list \<Rightarrow> sail_state \<Rightarrow> sail_state option" where
  "Sail [] s = Some s"
| "Sail (ev # evs) s = (case Sail_step ev s of None \<Rightarrow> None | Some s' \<Rightarrow> Sail evs s')"

text \<open>What the caller of \<^verbatim>\<open>Sail\<close> gets under a schedule: \<open>Some r\<close> when the call returned \<open>r\<close>.\<close>

definition Sail_result :: "sail_event list \<Rightarrow> sail_state \<Rightarrow> error option option" where
  "Sail_result evs s =
     (case Sail evs s of
        None \<Rightarrow> None
      | Some s' \<Rightarrow> (case main s' of MReturned r \<Rightarrow> Some r | _ \<Rightarrow> None))"

section \<open>Weaver\<close>

text \<open>
  The goroutines around one \<^verbatim>\<open>Weaver\<close> and their program points.

  A worker: \<open>WSelect\<close> at the \<^verbatim>\<open>select\<close> of its loop; in \<^verbatim>\<open>execute\<close>, \<open>WExecute t\<close> at the
  check of \<^verbatim>\<open>ctx.Err()\<close> with the pulled task \<open>t\<close>, \<open>WRunning t\<close> while the task runs,
  \<open>WSend e\<close> before \<^verbatim>\<open>w.sendErr(e)\<close> in the body, \<open>WRecover e\<close> before \<^verbatim>\<open>w.sendErr(e)\<close> in the
  deferred function; \<open>WFin\<close> before the deferred \<^verbatim>\<open>w.wg.Done()\<close>; \<open>WExited\<close>.

  A call of \<^verbatim>\<open>Add\<close> or \<^verbatim>\<open>Wait\<close> by some goroutine of the user: for \<^verbatim>\<open>Add(t)\<close>, at
  \<^verbatim>\<open>w.isClosed.Load()\<close>, at the send to the queue, returned; for \<^verbatim>\<open>Wait\<close>, at the first
  \<^verbatim>\<open>Load\<close>, at \<^verbatim>\<open>CompareAndSwap\<close>, at \<^verbatim>\<open><-w.errChan\<close> (both losing paths), at
  \<^verbatim>\<open>return w.finalErr\<close> of a losing path, and for the closer at \<^verbatim>\<open>close(w.taskQueue)\<close>,
  \<^verbatim>\<open>w.wg.Wait()\<close>, the \<^verbatim>\<open>select\<close>, then in the deferred function at \<^verbatim>\<open>w.cancel()\<close> and at
  \<^verbatim>\<open>close(w.errChan)\<close> (the value to return is fixed by then), returned.
\<close>

datatype worker_pc =
  WSelect | WExecute task | WRunning task | WSend error | WRecover error | WFin | WExited

datatype call_pc =
  AddLoad task | AddSend task | AddReturned "error option"
| WaitLoad | WaitCAS | WaitRecv | WaitRead
| WaitCloseQueue | WaitWg | WaitSelect | WaitCancel "error option" | WaitCloseErr "error option"
| WaitReturned "error option"

record weaver =
  parent_cancelled :: bool
  cancel_called :: bool
  w_wg :: nat
  w_errOnce :: bool
  w_errChan :: "error chan"
  w_taskQueue :: "task chan"
  w_isClosed :: bool
  w_finalErr :: "error option"
  workers :: "worker_pc list"
  calls :: "call_pc list"
  w_crashed :: bool

text \<open>
  \<^verbatim>\<open>workerCtx, cancel := context.WithCancel(ctx)\<close>: the workers' context is cancelled when
  the parent is or when \<^verbatim>\<open>cancel\<close> was called.
\<close>

definition workerCtx_cancelled :: "weaver \<Rightarrow> bool" where
  "workerCtx_cancelled w = (parent_cancelled w \<or> cancel_called w)"

text \<open>
  \<^verbatim>\<open>NewWeaver(ctx, concurrency)\<close>; the first argument says whether \<^verbatim>\<open>ctx\<close> is already
  cancelled. On success the workers are started, each at the \<^verbatim>\<open>select\<close> of its loop.
\<close>

definition NewWeaver :: "bool \<Rightarrow> int \<Rightarrow> error + weaver" where
  "NewWeaver c concurrency =
     (if concurrency \<le> 0 then Inl (Err ''weave: concurrency must be greater than 0'')
      else Inr \<lparr>parent_cancelled = c, cancel_called = False, w_wg = nat concurrency,
                w_errOnce = False, w_errChan = make_chan 1,
                w_taskQueue = make_chan (nat concurrency), w_isClosed = False,
                w_finalErr = None, workers = replicate (nat concurrency) WSelect,
                calls = [], w_crashed = False\<rparr>)"

text \<open>\<^verbatim>\<open>func (w *Weaver) sendErr(err error) { w.errOnce.Do(func() { w.errChan <- err }) }\<close>\<close>

definition Weaver_sendErr :: "error \<Rightarrow> weaver \<Rightarrow> weaver sync" where
  "Weaver_sendErr err w =
     (if w_errOnce w then Ok w
      else case chan_send err (w_errChan w) of
             Sent c \<Rightarrow> Ok (w\<lparr>w_errOnce := True, w_errChan := c\<rparr>)
           | SendBlocks \<Rightarrow> Block
           | SendPanics \<Rightarrow> Panic (w\<lparr>w_errOnce := True\<rparr>))"

text \<open>
  The two cases of the worker's \<^verbatim>\<open>select\<close>, each a step of its own since Go picks either
  one when both are ready: the receive from the queue (a task, or the return on a closed
  queue), and \<^verbatim>\<open><-ctx.Done()\<close>.
\<close>

definition worker_recv :: "nat \<Rightarrow> weaver \<Rightarrow> weaver option" where
  "worker_recv i w =
     (if i < length (workers w) \<and> workers w ! i = WSelect then
        (case chan_recv (w_taskQueue w) of
           Received t q \<Rightarrow> Some (w\<lparr>w_taskQueue := q, workers := (workers w)[i := WExecute t]\<rparr>)
         | ReceivedClosed \<Rightarrow> Some (w\<lparr>workers := (workers w)[i := WFin]\<rparr>)
         | ReceiveBlocks \<Rightarrow> None)
      else None)"

definition worker_done :: "nat \<Rightarrow> weaver \<Rightarrow> weaver option" where
  "worker_done i w =
     (if i < length (workers w) \<and> workers w ! i = WSelect \<and> workerCtx_cancelled w
      then Some (w\<lparr>workers := (workers w)[i := WFin]\<rparr>)
      else None)"

text \<open>
  The other steps of worker \<open>i\<close>: inside \<^verbatim>\<open>execute\<close>, the check of \<^verbatim>\<open>ctx.Err()\<close> (return without
  calling the task, or call it), the end of the task, \<^verbatim>\<open>w.sendErr\<close> in the body (a panic
  there is recovered by the deferred function), \<^verbatim>\<open>w.sendErr\<close> in the deferred function (a
  panic there is not recovered); and the deferred \<^verbatim>\<open>w.wg.Done()\<close> of \<^verbatim>\<open>worker\<close>.
\<close>

definition execute :: "nat \<Rightarrow> weaver \<Rightarrow> weaver option" where
  "execute i w =
     (if i < length (workers w) then
        (case workers w ! i of
           WExecute t \<Rightarrow>
             if workerCtx_cancelled w then Some (w\<lparr>workers := (workers w)[i := WSelect]\<rparr>)
             else Some (w\<lparr>workers := (workers w)[i := WRunning t]\<rparr>)
         | WRunning t \<Rightarrow>
             (case t (workerCtx_cancelled w) of
                Returns None \<Rightarrow> Some (w\<lparr>workers := (workers w)[i := WSelect]\<rparr>)
              | Returns (Some e) \<Rightarrow> Some (w\<lparr>workers := (workers w)[i := WSend e]\<rparr>)
              | Panics r \<Rightarrow> Some (w\<lparr>workers := (workers w)[i := WRecover (panic_error r)]\<rparr>))
         | WSend e \<Rightarrow>
             (case Weaver_sendErr e w of
                Ok w' \<Rightarrow> Some (w'\<lparr>workers := (workers w)[i := WSelect]\<rparr>)
              | Block \<Rightarrow> None
              | Panic w' \<Rightarrow>
                  Some (w'\<lparr>workers :=
                            (workers w)[i := WRecover (panic_error ''send on closed channel'')]\<rparr>))
         | WRecover e \<Rightarrow>
             (case Weaver_sendErr e w of
                Ok w' \<Rightarrow> Some (w'\<lparr>workers := (workers w)[i := WSelect]\<rparr>)
              | Block \<Rightarrow> None
              | Panic w' \<Rightarrow> Some (w'\<lparr>w_crashed := True\<rparr>))
         | WFin \<Rightarrow>
             if w_wg w = 0 then Some (w\<lparr>w_crashed := True\<rparr>)
             else Some (w\<lparr>w_wg := w_wg w - 1, workers := (workers w)[i := WExited]\<rparr>)
         | _ \<Rightarrow> None)
      else None)"

text \<open>
  One step of a call of \<^verbatim>\<open>Add\<close>: the load of \<^verbatim>\<open>isClosed\<close>, then the send to the queue, whose
  panic on a closed queue the deferred function turns into an error.
\<close>

definition Add :: "call_pc \<Rightarrow> weaver \<Rightarrow> (call_pc \<times> weaver) option" where
  "Add pc w =
     (case pc of
        AddLoad t \<Rightarrow>
          if w_isClosed w then Some (AddReturned (Some (Err ''weave: weaver is closed'')), w)
          else Some (AddSend t, w)
      | AddSend t \<Rightarrow>
          (case chan_send t (w_taskQueue w) of
             Sent q \<Rightarrow> Some (AddReturned None, w\<lparr>w_taskQueue := q\<rparr>)
           | SendBlocks \<Rightarrow> None
           | SendPanics \<Rightarrow>
               Some (AddReturned (Some (Err ''weave: cannot add task to closed weaver'')), w))
      | _ \<Rightarrow> None)"

text \<open>
  One step of a call of \<^verbatim>\<open>Wait\<close>. A panic of the closer (closing a closed channel) runs the
  deferred function, which cancels, records the panic in \<^verbatim>\<open>finalErr\<close>, closes \<^verbatim>\<open>errChan\<close>
  and panics again to the caller.
\<close>

definition Wait :: "call_pc \<Rightarrow> weaver \<Rightarrow> (call_pc \<times> weaver) option" where
  "Wait pc w =
     (case pc of
        WaitLoad \<Rightarrow> if w_isClosed w then Some (WaitRecv, w) else Some (WaitCAS, w)
      | WaitCAS \<Rightarrow>
          if w_isClosed w then Some (WaitRecv, w)
          else Some (WaitCloseQueue, w\<lparr>w_isClosed := True\<rparr>)
      | WaitRecv \<Rightarrow>
          (case chan_recv (w_errChan w) of
             Received e c \<Rightarrow> Some (WaitRead, w\<lparr>w_errChan := c\<rparr>)
           | ReceivedClosed \<Rightarrow> Some (WaitRead, w)
           | ReceiveBlocks \<Rightarrow> None)
      | WaitRead \<Rightarrow> Some (WaitReturned (w_finalErr w), w)
      | WaitCloseQueue \<Rightarrow>
          (case chan_close (w_taskQueue w) of
             Some q \<Rightarrow> Some (WaitWg, w\<lparr>w_taskQueue := q\<rparr>)
           | None \<Rightarrow>
               Some (WaitCloseQueue,
                     w\<lparr>cancel_called := True,
                       w_finalErr := Some (Err ''weaver: wait panic: close of closed channel''),
                       w_errChan := (w_errChan w)\<lparr>ch_closed := True\<rparr>,
                       w_crashed := True\<rparr>))
      | WaitWg \<Rightarrow> if w_wg w = 0 then Some (WaitSelect, w) else None
      | WaitSelect \<Rightarrow>
          (case chan_recv (w_errChan w) of
             Received e c \<Rightarrow> Some (WaitCancel (Some e), w\<lparr>w_errChan := c, w_finalErr := Some e\<rparr>)
           | ReceivedClosed \<Rightarrow> Some (WaitCancel None, w\<lparr>w_finalErr := None\<rparr>)
           | ReceiveBlocks \<Rightarrow> Some (WaitCancel (w_finalErr w), w))
      | WaitCancel r \<Rightarrow> Some (WaitCloseErr r, w\<lparr>cancel_called := True\<rparr>)
      | WaitCloseErr r \<Rightarrow>
          (case chan_close (w_errChan w) of
             Some c \<Rightarrow> Some (WaitReturned r, w\<lparr>w_errChan := c\<rparr>)
           | None \<Rightarrow> Some (WaitCloseErr r, w\<lparr>w_crashed := True\<rparr>))
      | _ \<Rightarrow> None)"

definition client_step :: "nat \<Rightarrow> weaver \<Rightarrow> weaver option" where
  "client_step i w =
     (if i < length (calls w) then
        (case (case calls w ! i of
                 AddLoad t \<Rightarrow> Add (AddLoad t) w
               | AddSend t \<Rightarrow> Add (AddSend t) w
               | AddReturned r \<Rightarrow> None
               | pc \<Rightarrow> Wait pc w) of
           None \<Rightarrow> None
         | Some (pc', w') \<Rightarrow> Some (w'\<lparr>calls := (calls w)[i := pc']\<rparr>))
      else None)"

text \<open>
  The events around a pool: the parent context is cancelled; a goroutine of the user
  calls \<^verbatim>\<open>Add(t)\<close> or \<^verbatim>\<open>Wait()\<close> (the call gets the next index); a call or a worker takes
  its next step. A crashed process takes no step.
\<close>

datatype weaver_event =
  ParentCancel | CallAdd task | CallWait | ClientStep nat
| WorkerRecv nat | WorkerDone nat | WorkerStep nat

definition Weaver_step :: "weaver_event \<Rightarrow> weaver \<Rightarrow> weaver option" where
  "Weaver_step ev w =
     (if w_crashed w then None
      else case ev of
             ParentCancel \<Rightarrow> Some (w\<lparr>parent_cancelled := True\<rparr>)
           | CallAdd t \<Rightarrow> Some (w\<lparr>calls := calls w @ [AddLoad t]\<rparr>)
           | CallWait \<Rightarrow> Some (w\<lparr>calls := calls w @ [WaitLoad]\<rparr>)
           | ClientStep i \<Rightarrow> client_step i w
           | WorkerRecv i \<Rightarrow> worker_recv i w
           | WorkerDone i \<Rightarrow> worker_done i w
           | WorkerStep i \<Rightarrow> execute i w)"

fun Weaver :: "weaver_event list \<Rightarrow> weaver \<Rightarrow> weaver option" where
  "Weaver [] w = Some w"
| "Weaver (ev # evs) w = (case Weaver_step ev w of None \<Rightarrow> None | Some w' \<Rightarrow> Weaver evs w')"


text \<open>The pool built by \<^verbatim>\<open>NewWeaver\<close> run under a schedule; \<open>None\<close> when construction fails.\<close>

definition Weaver_from :: "bool \<Rightarrow> int \<Rightarrow> weaver_event list \<Rightarrow> weaver option" where
  "Weaver_from c n evs = (case NewWeaver c n of Inl e \<Rightarrow> None | Inr w \<Rightarrow> Weaver evs w)"

section \<open>Tasks of the test suite\<close>

text \<open>
  \<^verbatim>\<open>taskOK := func(ctx context.Context) error { return nil }\<close>,
  \<^verbatim>\<open>taskFail := func(ctx context.Context) error { return expectedErr }\<close> and
  \<^verbatim>\<open>taskPanic := func(ctx context.Context) error { panic("...") }\<close>.
\<close>

definition taskOK :: task where
  "taskOK = (\<lambda>c. Returns None)"

definition taskFail :: "error \<Rightarrow> task" where
  "taskFail e = (\<lambda>c. Returns (Some e))"

definition taskPanic :: "string \<Rightarrow> task" where
  "taskPanic r = (\<lambda>c. Panics r)"

section \<open>Observations and invariants\<close>

text \<open>The values waiting in the failure slot of \<^verbatim>\<open>Sail\<close> after a schedule.\<close>

definition Sail_slot :: "sail_event list \<Rightarrow> sail_state \<Rightarrow> error list option" where
  "Sail_slot evs s = (case Sail evs s of None \<Rightarrow> None | Some s' \<Rightarrow> Some (ch_buf (errChan s')))"

text \<open>How many elements of a list satisfy a predicate.\<close>

definition count_if :: "('a \<Rightarrow> bool) \<Rightarrow> 'a list \<Rightarrow> nat" where
  "count_if P xs = length (filter P xs)"

text \<open>
  A task goroutine that has not yet called \<^verbatim>\<open>wg.Done()\<close> (nor was skipped) counts in the
  wait group.
\<close>

fun active :: "go_pc \<Rightarrow> bool" where
  "active GSkipped = False"
| "active GDone = False"
| "active _ = True"

text \<open>
  The invariant of the runs of \<^verbatim>\<open>Sail\<close>: the wait group counts the goroutines still to call
  \<^verbatim>\<open>Done\<close>; the slot is empty until \<^verbatim>\<open>once\<close> has fired and never holds two values; the
  channel is closed exactly when the closing goroutine is done, which it is only after
  the counter reached zero; the closing goroutine starts after the loop; nothing crashed.
\<close>

definition Sail_inv :: "sail_state \<Rightarrow> bool" where
  "Sail_inv s =
     (length (gos s) = length (tasks s) \<and>
      wg s = count_if active (gos s) \<and>
      ch_cap (errChan s) = 1 \<and>
      (once s \<or> ch_buf (errChan s) = []) \<and>
      length (ch_buf (errChan s)) \<le> 1 \<and>
      (closer s = CClose \<or> closer s = CDone \<longrightarrow> wg s = 0) \<and>
      (ch_closed (errChan s) = (closer s = CDone)) \<and>
      ((closer s = CIdle) = (\<exists>i. main s = MLoop i)) \<and>
      (\<forall>i j. main s = MLoop i \<and> i \<le> j \<and> j < length (gos s) \<longrightarrow> gos s ! j = GIdle) \<and>
      \<not> crashed s)"

text \<open>
  For the pool: a worker that has not exited counts in the wait group; the phases of the one
  call of \<^verbatim>\<open>Wait\<close> that won the \<^verbatim>\<open>CompareAndSwap\<close>: before \<^verbatim>\<open>close(w.taskQueue)\<close>, between the
  two closes, and past \<^verbatim>\<open>w.wg.Wait()\<close>.
\<close>

fun alive :: "worker_pc \<Rightarrow> bool" where
  "alive WExited = False"
| "alive _ = True"

fun closing :: "call_pc \<Rightarrow> bool" where
  "closing WaitCloseQueue = True"
| "closing _ = False"

fun draining :: "call_pc \<Rightarrow> bool" where
  "draining WaitWg = True"
| "draining WaitSelect = True"
| "draining (WaitCancel r) = True"
| "draining (WaitCloseErr r) = True"
| "draining _ = False"

fun joined :: "call_pc \<Rightarrow> bool" where
  "joined WaitSelect = True"
| "joined (WaitCancel r) = True"
| "joined (WaitCloseErr r) = True"
| "joined _ = False"

definition Weaver_inv :: "weaver \<Rightarrow> bool" where
  "Weaver_inv w =
     (w_wg w = count_if alive (workers w) \<and>
      ch_cap (w_errChan w) = 1 \<and>
      (w_errOnce w \<or> ch_buf (w_errChan w) = []) \<and>
      length (ch_buf (w_errChan w)) \<le> 1 \<and>
      count_if closing (calls w) = (if w_isClosed w \<and> \<not> ch_closed (w_taskQueue w) then 1 else 0) \<and>
      count_if draining (calls w) =
        (if ch_closed (w_taskQueue w) \<and> \<not> ch_closed (w_errChan w) then 1 else 0) \<and>
      (ch_closed (w_taskQueue w) \<longrightarrow> w_isClosed w) \<and>
      (ch_closed (w_errChan w) \<longrightarrow> ch_closed (w_taskQueue w)) \<and>
      (ch_closed (w_errChan w) \<or> 0 < count_if joined (calls w) \<longrightarrow> w_wg w = 0) \<and>
      \<not> w_crashed w)"

text \<open>A worker that is running a task.\<close>

fun running :: "worker_pc \<Rightarrow> bool" where
  "running (WRunning t) = True"
| "running _ = False"

text \<open>How many tasks wait in the queue of the pool.\<close>

definition queued :: "weaver \<Rightarrow> nat" where
  "queued w = length (ch_buf (w_taskQueue w))"

text \<open>
  The call with index \<open>k\<close> is an \<^verbatim>\<open>Add(t)\<close> on a pool whose draining has begun: it is still at
  its load of \<^verbatim>\<open>isClosed\<close>, or it has returned the closed-pool error.
\<close>

definition refused :: "nat \<Rightarrow> task \<Rightarrow> weaver \<Rightarrow> bool" where
  "refused k t w =
     (w_isClosed w \<and> k < length (calls w) \<and>
      (calls w ! k = AddLoad t \<or> calls w ! k = AddReturned (Some (Err ''weave: weaver is closed''))))"

text \<open>What a finished task leaves its worker at.\<close>

definition after_task :: "outcome \<Rightarrow> worker_pc" where
  "after_task out =
     (case out of
        Returns None \<Rightarrow> WSelect
      | Returns (Some e) \<Rightarrow> WSend e
      | Panics r \<Rightarrow> WRecover (panic_error r))"

text \<open>
  For a call of \<^verbatim>\<open>Sail\<close> without tasks and without cancellation: the number of steps left
  until the call has returned, and the invariant of its runs.
\<close>

definition steps_left :: "sail_state \<Rightarrow> nat" where
  "steps_left s =
     (case main s of
        MLoop i \<Rightarrow> 4
      | MSelect \<Rightarrow> (case closer s of CDone \<Rightarrow> 1 | CClose \<Rightarrow> 2 | _ \<Rightarrow> 3)
      | MReturned r \<Rightarrow> 0)"

definition no_tasks_inv :: "sail_state \<Rightarrow> bool" where
  "no_tasks_inv s =
     (Sail_inv s \<and> tasks s = [] \<and> \<not> cancelled s \<and> ch_buf (errChan s) = [] \<and>
      (main s = MReturned None \<or> (\<forall>r. main s \<noteq> MReturned r)) \<and>
      (main s = MReturned None \<longrightarrow> closer s = CDone))"

text \<open>The values waiting in the failure slot of a pool after a schedule.\<close>

definition Weaver_slot :: "bool \<Rightarrow> int \<Rightarrow> weaver_event list \<Rightarrow> error list option" where
  "Weaver_slot c n evs =
     (case Weaver_from c n evs of None \<Rightarrow> None | Some w \<Rightarrow> Some (ch_buf (w_errChan w)))"

section \<open>Evaluation\<close>

lemmas sail_defs = Sail_init_def Sail_step_def main_step_def select_err_def select_done_def
  go_step_def closer_step_def sendErr_def wg_Done_def chan_send_def chan_recv_def chan_close_def
  make_chan_def Sail_result_def Sail_slot_def taskOK_def taskFail_def taskPanic_def panic_error_def

lemmas weaver_defs = NewWeaver_def Weaver_from_def Weaver_step_def client_step_def Add_def
  Wait_def execute_def worker_recv_def worker_done_def Weaver_sendErr_def workerCtx_cancelled_def
  chan_send_def chan_recv_def chan_close_def make_chan_def taskOK_def taskFail_def taskPanic_def
  panic_error_def

section \<open>Counting\<close>

lemma filter_update_length:
  "i < length xs \<Longrightarrow>
   length (filter P (xs[i := y])) + (if P (xs ! i) then 1 else 0) =
   length (filter P xs) + (if P y then 1 else 0)"
proof (induction xs arbitrary: i)
  case Nil
  then show ?case by simp
next
  case (Cons x xs)
  show ?case
  proof (cases i)
    case 0
    then show ?thesis by simp
  next
    case (Suc k)
    with Cons.prems have "k < length xs" by simp
    from Cons.IH[OF this] Suc show ?thesis by simp
  qed
qed

lemma count_if_replicate: "count_if P (replicate n x) = (if P x then n else 0)"
  by (simp add: count_if_def)

lemma count_if_snoc: "count_if P (xs @ [x]) = (if P x then Suc (count_if P xs) else count_if P xs)"
  by (simp add: count_if_def)

lemma count_if_Nil: "count_if P [] = 0"
  by (simp add: count_if_def)

lemma count_if_le_length: "count_if P xs \<le> length xs"
  by (simp add: count_if_def)

lemma count_if_same:
  "i < length xs \<Longrightarrow> P (xs ! i) = P y \<Longrightarrow> count_if P (xs[i := y]) = count_if P xs"
  using filter_update_length[of i xs P y] by (simp add: count_if_def split: if_splits)

lemma count_if_drop:
  "i < length xs \<Longrightarrow> P (xs ! i) \<Longrightarrow> \<not> P y \<Longrightarrow> count_if P xs = Suc (count_if P (xs[i := y]))"
  using filter_update_length[of i xs P y] by (simp add: count_if_def)

lemma count_if_gain:
  "i < length xs \<Longrightarrow> \<not> P (xs ! i) \<Longrightarrow> P y \<Longrightarrow> count_if P (xs[i := y]) = Suc (count_if P xs)"
  using filter_update_length[of i xs P y] by (simp add: count_if_def)

lemma count_if_pos: "i < length xs \<Longrightarrow> P (xs ! i) \<Longrightarrow> 0 < count_if P xs"
  by (auto simp: count_if_def filter_empty_conv)

section \<open>The invariant of Sail\<close>

lemma Sail_invI:
  assumes "length (gos s) = length (tasks s)" "wg s = count_if active (gos s)" "ch_cap (errChan s) = 1"
    "once s \<or> ch_buf (errChan s) = []" "length (ch_buf (errChan s)) \<le> 1"
    "closer s = CClose \<or> closer s = CDone \<Longrightarrow> wg s = 0"
    "ch_closed (errChan s) = (closer s = CDone)"
    "(closer s = CIdle) = (\<exists>i. main s = MLoop i)"
    "\<And>i j. main s = MLoop i \<Longrightarrow> i \<le> j \<Longrightarrow> j < length (gos s) \<Longrightarrow> gos s ! j = GIdle"
    "\<not> crashed s"
  shows "Sail_inv s"
  unfolding Sail_inv_def using assms by blast

lemma Sail_invD:
  assumes "Sail_inv s"
  shows "length (gos s) = length (tasks s)" "wg s = count_if active (gos s)" "ch_cap (errChan s) = 1"
    "once s \<or> ch_buf (errChan s) = []" "length (ch_buf (errChan s)) \<le> 1"
    "closer s = CClose \<or> closer s = CDone \<Longrightarrow> wg s = 0"
    "ch_closed (errChan s) = (closer s = CDone)"
    "(closer s = CIdle) = (\<exists>i. main s = MLoop i)"
    "\<And>i j. main s = MLoop i \<Longrightarrow> i \<le> j \<Longrightarrow> j < length (gos s) \<Longrightarrow> gos s ! j = GIdle"
    "\<not> crashed s"
  using assms unfolding Sail_inv_def by blast+

lemma Sail_inv_init: "Sail_inv (Sail_init c ts)"
  by (rule Sail_invI) (simp_all add: Sail_init_def make_chan_def count_if_replicate)

lemma Sail_inv_cancel:
  assumes inv: "Sail_inv s"
  shows "Sail_inv (s\<lparr>cancelled := True\<rparr>)"
  by (rule Sail_invI) (use Sail_invD[OF inv] in simp_all)

lemma Sail_inv_main:
  assumes inv: "Sail_inv s" and st: "main_step s = Some s'"
  shows "Sail_inv s'"
proof (cases "main s")
  case (MLoop i)
  note D = Sail_invD[OF inv]
  from D(8) MLoop have cl: "closer s = CIdle" by simp
  show ?thesis
  proof (cases "i < length (tasks s)")
    case True
    with D(1) have len: "i < length (gos s)" by simp
    from D(9)[OF MLoop le_refl len] have idle: "gos s ! i = GIdle" .
    show ?thesis
    proof (cases "cancelled s")
      case c: True
      from count_if_drop[OF len, of active GSkipped] idle
      have sk: "count_if active (gos s) = Suc (count_if active ((gos s)[i := GSkipped]))" by simp
      with D(2) have nz: "wg s \<noteq> 0" by simp
      from st MLoop True c nz
      have s': "s' = s\<lparr>wg := wg s - 1, main := MLoop (Suc i), gos := (gos s)[i := GSkipped]\<rparr>"
        by (simp add: main_step_def wg_Done_def)
      show ?thesis unfolding s'
      proof (rule Sail_invI)
        fix k j assume "main (s\<lparr>wg := wg s - 1, main := MLoop (Suc i), gos := (gos s)[i := GSkipped]\<rparr>) = MLoop k"
          "k \<le> j" "j < length (gos (s\<lparr>wg := wg s - 1, main := MLoop (Suc i), gos := (gos s)[i := GSkipped]\<rparr>))"
        then have "i \<le> j" "j < length (gos s)" "i \<noteq> j" by simp_all
        with D(9)[OF MLoop] show "gos (s\<lparr>wg := wg s - 1, main := MLoop (Suc i), gos := (gos s)[i := GSkipped]\<rparr>) ! j = GIdle"
          by simp
      qed (use D cl sk in simp_all)
    next
      case c: False
      from count_if_same[OF len, of active GReady] idle
      have rd: "count_if active ((gos s)[i := GReady]) = count_if active (gos s)" by simp
      from st MLoop True c
      have s': "s' = s\<lparr>main := MLoop (Suc i), gos := (gos s)[i := GReady]\<rparr>"
        by (simp add: main_step_def)
      show ?thesis unfolding s'
      proof (rule Sail_invI)
        fix k j assume "main (s\<lparr>main := MLoop (Suc i), gos := (gos s)[i := GReady]\<rparr>) = MLoop k"
          "k \<le> j" "j < length (gos (s\<lparr>main := MLoop (Suc i), gos := (gos s)[i := GReady]\<rparr>))"
        then have "i \<le> j" "j < length (gos s)" "i \<noteq> j" by simp_all
        with D(9)[OF MLoop] show "gos (s\<lparr>main := MLoop (Suc i), gos := (gos s)[i := GReady]\<rparr>) ! j = GIdle"
          by simp
      qed (use D cl rd in simp_all)
    qed
  next
    case False
    with st MLoop have s': "s' = s\<lparr>main := MSelect, closer := CWait\<rparr>"
      by (simp add: main_step_def)
    show ?thesis unfolding s'
      by (rule Sail_invI) (use D cl in simp_all)
  qed
next
  case MSelect
  with st show ?thesis by (simp add: main_step_def)
next
  case (MReturned r)
  with st show ?thesis by (simp add: main_step_def)
qed

lemma Sail_inv_returned:
  assumes inv: "Sail_inv s" and m: "main s = MSelect"
  shows "Sail_inv (s\<lparr>main := MReturned r\<rparr>)"
  by (rule Sail_invI) (use Sail_invD[OF inv] m in simp_all)

lemma Sail_inv_received:
  assumes inv: "Sail_inv s" and m: "main s = MSelect" and b: "ch_buf (errChan s) = e # es"
  shows "Sail_inv (s\<lparr>errChan := (errChan s)\<lparr>ch_buf := es\<rparr>, main := MReturned r\<rparr>)"
  by (rule Sail_invI) (use Sail_invD[OF inv] m b in simp_all)

lemma Sail_inv_select_err:
  assumes inv: "Sail_inv s" and st: "select_err s = Some s'"
  shows "Sail_inv s'"
proof -
  from st have m: "main s = MSelect"
    by (cases "main s") (simp_all add: select_err_def)
  show ?thesis
  proof (cases "ch_buf (errChan s)")
    case Nil
    with st m have "s' = s\<lparr>main := MReturned None\<rparr>"
      by (simp add: select_err_def chan_recv_def split: if_splits)
    with Sail_inv_returned[OF inv m] show ?thesis by simp
  next
    case (Cons e es)
    with st m have "s' = s\<lparr>errChan := (errChan s)\<lparr>ch_buf := es\<rparr>, main := MReturned (Some e)\<rparr>"
      by (simp add: select_err_def chan_recv_def)
    with Sail_inv_received[OF inv m Cons] show ?thesis by simp
  qed
qed

lemma Sail_inv_select_done:
  assumes inv: "Sail_inv s" and st: "select_done s = Some s'"
  shows "Sail_inv s'"
proof -
  from st have m: "main s = MSelect"
    by (cases "main s") (simp_all add: select_done_def)
  with st have "s' = s\<lparr>main := MReturned (Some CtxErr)\<rparr>"
    by (simp add: select_done_def split: if_splits)
  with Sail_inv_returned[OF inv m] show ?thesis by simp
qed

lemma Sail_inv_closer:
  assumes inv: "Sail_inv s" and st: "closer_step s = Some s'"
  shows "Sail_inv s'"
proof (cases "closer s")
  case CWait
  with st have z: "wg s = 0" and s': "s' = s\<lparr>closer := CClose\<rparr>"
    by (simp_all add: closer_step_def split: if_splits)
  show ?thesis unfolding s'
    by (rule Sail_invI) (use Sail_invD[OF inv] CWait z in simp_all)
next
  case CClose
  note D = Sail_invD[OF inv]
  from D(7) CClose have "\<not> ch_closed (errChan s)" by simp
  with st CClose have s': "s' = s\<lparr>errChan := (errChan s)\<lparr>ch_closed := True\<rparr>, closer := CDone\<rparr>"
    by (simp add: closer_step_def chan_close_def)
  show ?thesis unfolding s'
    by (rule Sail_invI) (use D CClose in simp_all)
qed (use st in \<open>simp_all add: closer_step_def\<close>)

lemma sendErr_live:
  assumes inv: "Sail_inv s" and len: "i < length (gos s)" and act: "active (gos s ! i)"
  shows "sendErr e s =
         Ok (if once s then s else s\<lparr>once := True, errChan := (errChan s)\<lparr>ch_buf := [e]\<rparr>\<rparr>)"
proof -
  note D = Sail_invD[OF inv]
  from count_if_drop[OF len, of active GDone] act D(2) have "wg s \<noteq> 0" by simp
  with D(6,7) have "\<not> ch_closed (errChan s)" by auto
  with D(3,4) show ?thesis
    by (auto simp: sendErr_def chan_send_def)
qed

lemma Sail_inv_moved:
  assumes inv: "Sail_inv s" and len: "i < length (gos s)" and act: "active (gos s ! i)"
    and ni: "gos s ! i \<noteq> GIdle" and y: "active y"
  shows "Sail_inv (s\<lparr>gos := (gos s)[i := y]\<rparr>)"
proof (rule Sail_invI)
  note D = Sail_invD[OF inv]
  fix k j assume a: "main (s\<lparr>gos := (gos s)[i := y]\<rparr>) = MLoop k" "k \<le> j"
    "j < length (gos (s\<lparr>gos := (gos s)[i := y]\<rparr>))"
  then have m: "main s = MLoop k" and j: "j < length (gos s)" by simp_all
  from D(9)[OF m a(2) j] have "gos s ! j = GIdle" .
  with ni have "i \<noteq> j" by auto
  with \<open>gos s ! j = GIdle\<close> show "gos (s\<lparr>gos := (gos s)[i := y]\<rparr>) ! j = GIdle" by simp
qed (use Sail_invD[OF inv] count_if_same[OF len, of active y] act y in simp_all)

lemma Sail_inv_finished:
  assumes inv: "Sail_inv s" and len: "i < length (gos s)" and fin: "gos s ! i = GFin"
  shows "wg s \<noteq> 0 \<and> Sail_inv (s\<lparr>wg := wg s - 1, gos := (gos s)[i := GDone]\<rparr>)"
proof
  note D = Sail_invD[OF inv]
  from count_if_drop[OF len, of active GDone] fin
  have dn: "count_if active (gos s) = Suc (count_if active ((gos s)[i := GDone]))" by simp
  with D(2) show nz: "wg s \<noteq> 0" by simp
  with D(6) have cl: "closer s \<noteq> CClose" "closer s \<noteq> CDone" by auto
  show "Sail_inv (s\<lparr>wg := wg s - 1, gos := (gos s)[i := GDone]\<rparr>)"
  proof (rule Sail_invI)
    fix k j assume a: "main (s\<lparr>wg := wg s - 1, gos := (gos s)[i := GDone]\<rparr>) = MLoop k" "k \<le> j"
      "j < length (gos (s\<lparr>wg := wg s - 1, gos := (gos s)[i := GDone]\<rparr>))"
    then have m: "main s = MLoop k" and j: "j < length (gos s)" by simp_all
    from D(9)[OF m a(2) j] have "gos s ! j = GIdle" .
    with fin have "i \<noteq> j" by auto
    with \<open>gos s ! j = GIdle\<close>
    show "gos (s\<lparr>wg := wg s - 1, gos := (gos s)[i := GDone]\<rparr>) ! j = GIdle" by simp
  qed (use D dn cl in simp_all)
qed

lemma Sail_inv_sent:
  assumes inv: "Sail_inv s" and len: "i < length (gos s)" and act: "active (gos s ! i)"
    and ni: "gos s ! i \<noteq> GIdle"
  shows "\<exists>t. sendErr e s = Ok t \<and> Sail_inv (t\<lparr>gos := (gos s)[i := GFin]\<rparr>)"
proof (cases "once s")
  case True
  with sendErr_live[OF inv len act, of e] have "sendErr e s = Ok s" by simp
  with Sail_inv_moved[OF inv len act ni, of GFin] show ?thesis by simp
next
  case False
  let ?t = "s\<lparr>once := True, errChan := (errChan s)\<lparr>ch_buf := [e]\<rparr>\<rparr>"
  from False sendErr_live[OF inv len act, of e] have se: "sendErr e s = Ok ?t" by simp
  have "Sail_inv ?t"
    by (rule Sail_invI) (use Sail_invD[OF inv] in simp_all)
  from Sail_inv_moved[OF this, of i GFin] len act ni
  have "Sail_inv (?t\<lparr>gos := (gos s)[i := GFin]\<rparr>)" by simp
  with se show ?thesis by blast
qed

lemma Sail_inv_go:
  assumes inv: "Sail_inv s" and st: "go_step i s = Some s'"
  shows "Sail_inv s'"
proof -
  from st have len: "i < length (gos s)" and lent: "i < length (tasks s)"
    by (auto simp: go_step_def split: if_splits)
  show ?thesis
  proof (cases "gos s ! i")
    case GReady
    then have a: "active (gos s ! i)" "gos s ! i \<noteq> GIdle" by simp_all
    have mv: "\<And>y. active y \<Longrightarrow> Sail_inv (s\<lparr>gos := (gos s)[i := y]\<rparr>)"
      using Sail_inv_moved[OF inv len a] .
    from st len lent GReady show ?thesis
      by (auto simp: go_step_def mv split: outcome.splits option.splits)
  next
    case (GSend e)
    then have a: "active (gos s ! i)" "gos s ! i \<noteq> GIdle" by simp_all
    from Sail_inv_sent[OF inv len a, of e] st len lent GSend show ?thesis
      by (auto simp: go_step_def)
  next
    case (GRecover e)
    then have a: "active (gos s ! i)" "gos s ! i \<noteq> GIdle" by simp_all
    from Sail_inv_sent[OF inv len a, of e] st len lent GRecover show ?thesis
      by (auto simp: go_step_def)
  next
    case GFin
    from Sail_inv_finished[OF inv len GFin] st len lent GFin show ?thesis
      by (simp add: go_step_def wg_Done_def)
  qed (use st len lent in \<open>simp_all add: go_step_def\<close>)
qed

lemma Sail_inv_step:
  assumes "Sail_inv s" "Sail_step ev s = Some s'"
  shows "Sail_inv s'"
proof (cases ev)
  case Cancel
  with assms Sail_inv_cancel[of s] show ?thesis
    by (auto simp: Sail_step_def split: if_splits)
next
  case MainStep
  with assms Sail_inv_main[of s s'] show ?thesis
    by (simp add: Sail_step_def split: if_splits)
next
  case SelectErr
  with assms Sail_inv_select_err[of s s'] show ?thesis
    by (simp add: Sail_step_def split: if_splits)
next
  case SelectDone
  with assms Sail_inv_select_done[of s s'] show ?thesis
    by (simp add: Sail_step_def split: if_splits)
next
  case (GoStep i)
  with assms Sail_inv_go[of s i s'] show ?thesis
    by (simp add: Sail_step_def split: if_splits)
next
  case CloserStep
  with assms Sail_inv_closer[of s s'] show ?thesis
    by (simp add: Sail_step_def split: if_splits)
qed

lemma Sail_inv_run: "Sail_inv s \<Longrightarrow> Sail evs s = Some s' \<Longrightarrow> Sail_inv s'"
proof (induction evs arbitrary: s)
  case Nil
  then show ?case by simp
next
  case (Cons ev evs)
  then show ?case
    by (cases "Sail_step ev s") (auto dest: Sail_inv_step)
qed

section \<open>The invariant of the pool\<close>

lemma Weaver_invI:
  assumes "w_wg w = count_if alive (workers w)" "ch_cap (w_errChan w) = 1"
    "w_errOnce w \<or> ch_buf (w_errChan w) = []" "length (ch_buf (w_errChan w)) \<le> 1"
    "count_if closing (calls w) = (if w_isClosed w \<and> \<not> ch_closed (w_taskQueue w) then 1 else 0)"
    "count_if draining (calls w) =
       (if ch_closed (w_taskQueue w) \<and> \<not> ch_closed (w_errChan w) then 1 else 0)"
    "ch_closed (w_taskQueue w) \<Longrightarrow> w_isClosed w"
    "ch_closed (w_errChan w) \<Longrightarrow> ch_closed (w_taskQueue w)"
    "ch_closed (w_errChan w) \<or> 0 < count_if joined (calls w) \<Longrightarrow> w_wg w = 0"
    "\<not> w_crashed w"
  shows "Weaver_inv w"
  unfolding Weaver_inv_def using assms by blast

lemma Weaver_invD:
  assumes "Weaver_inv w"
  shows "w_wg w = count_if alive (workers w)" "ch_cap (w_errChan w) = 1"
    "w_errOnce w \<or> ch_buf (w_errChan w) = []" "length (ch_buf (w_errChan w)) \<le> 1"
    "count_if closing (calls w) = (if w_isClosed w \<and> \<not> ch_closed (w_taskQueue w) then 1 else 0)"
    "count_if draining (calls w) =
       (if ch_closed (w_taskQueue w) \<and> \<not> ch_closed (w_errChan w) then 1 else 0)"
    "ch_closed (w_taskQueue w) \<Longrightarrow> w_isClosed w"
    "ch_closed (w_errChan w) \<Longrightarrow> ch_closed (w_taskQueue w)"
    "ch_closed (w_errChan w) \<or> 0 < count_if joined (calls w) \<Longrightarrow> w_wg w = 0"
    "\<not> w_crashed w"
  using assms unfolding Weaver_inv_def by blast+

lemma Weaver_inv_new: "NewWeaver c n = Inr w \<Longrightarrow> Weaver_inv w"
  by (rule Weaver_invI)
     (auto simp: NewWeaver_def make_chan_def count_if_replicate count_if_Nil split: if_splits)

text \<open>Changes that the invariant does not look at.\<close>

lemma Weaver_inv_parent:
  assumes inv: "Weaver_inv w"
  shows "Weaver_inv (w\<lparr>parent_cancelled := b\<rparr>)"
  by (rule Weaver_invI) (use Weaver_invD[OF inv] in simp_all)

lemma Weaver_inv_queue_buf:
  assumes inv: "Weaver_inv w"
  shows "Weaver_inv (w\<lparr>w_taskQueue := (w_taskQueue w)\<lparr>ch_buf := b\<rparr>\<rparr>)"
  by (rule Weaver_invI) (use Weaver_invD[OF inv] in simp_all)

lemma Weaver_inv_err_taken:
  assumes inv: "Weaver_inv w" and b: "ch_buf (w_errChan w) = e # es"
  shows "Weaver_inv (w\<lparr>w_errChan := (w_errChan w)\<lparr>ch_buf := es\<rparr>\<rparr>)"
  by (rule Weaver_invI) (use Weaver_invD[OF inv] b in simp_all)

lemma Weaver_inv_finalErr:
  assumes inv: "Weaver_inv w"
  shows "Weaver_inv (w\<lparr>w_finalErr := r\<rparr>)"
  by (rule Weaver_invI) (use Weaver_invD[OF inv] in simp_all)

lemma Weaver_inv_cancel_called:
  assumes inv: "Weaver_inv w"
  shows "Weaver_inv (w\<lparr>cancel_called := b\<rparr>)"
  by (rule Weaver_invI) (use Weaver_invD[OF inv] in simp_all)

text \<open>A new call.\<close>

lemma Weaver_inv_call:
  assumes inv: "Weaver_inv w" and pc: "\<not> closing pc" "\<not> draining pc" "\<not> joined pc"
  shows "Weaver_inv (w\<lparr>calls := calls w @ [pc]\<rparr>)"
  by (rule Weaver_invI) (use Weaver_invD[OF inv] pc in \<open>simp_all add: count_if_snoc\<close>)

text \<open>A call moves on within its phase.\<close>

lemma Weaver_inv_call_moved:
  assumes inv: "Weaver_inv w" and len: "i < length (calls w)"
    and pc: "closing pc = closing (calls w ! i)" "draining pc = draining (calls w ! i)"
      "joined pc = joined (calls w ! i)"
  shows "Weaver_inv (w\<lparr>calls := (calls w)[i := pc]\<rparr>)"
  by (rule Weaver_invI)
     (use Weaver_invD[OF inv] count_if_same[OF len, of closing pc]
        count_if_same[OF len, of draining pc] count_if_same[OF len, of joined pc] pc
      in simp_all)

text \<open>A worker moves on and stays alive.\<close>

lemma Weaver_inv_worker_moved:
  assumes inv: "Weaver_inv w" and len: "i < length (workers w)"
    and a: "alive (workers w ! i)" "alive pc"
  shows "Weaver_inv (w\<lparr>workers := (workers w)[i := pc]\<rparr>)"
  by (rule Weaver_invI)
     (use Weaver_invD[OF inv] count_if_same[OF len, of alive pc] a in simp_all)

lemma Weaver_alive_open:
  assumes inv: "Weaver_inv w" and len: "i < length (workers w)" and a: "alive (workers w ! i)"
  shows "w_wg w \<noteq> 0" "\<not> ch_closed (w_errChan w)" "count_if joined (calls w) = 0"
proof -
  note D = Weaver_invD[OF inv]
  from count_if_pos[OF len, of alive] a D(1) show nz: "w_wg w \<noteq> 0" by simp
  with D(9) show "\<not> ch_closed (w_errChan w)" "count_if joined (calls w) = 0" by auto
qed

lemma Weaver_inv_exit:
  assumes inv: "Weaver_inv w" and len: "i < length (workers w)" and a: "workers w ! i = WFin"
  shows "w_wg w \<noteq> 0 \<and> Weaver_inv (w\<lparr>w_wg := w_wg w - 1, workers := (workers w)[i := WExited]\<rparr>)"
proof
  note D = Weaver_invD[OF inv]
  from a have al: "alive (workers w ! i)" by simp
  note O = Weaver_alive_open[OF inv len al]
  show "w_wg w \<noteq> 0" by (rule O(1))
  from count_if_drop[OF len, of alive WExited] a
  have dn: "count_if alive (workers w) = Suc (count_if alive ((workers w)[i := WExited]))" by simp
  show "Weaver_inv (w\<lparr>w_wg := w_wg w - 1, workers := (workers w)[i := WExited]\<rparr>)"
    by (rule Weaver_invI) (use D O dn in simp_all)
qed

lemma Weaver_sendErr_alive:
  assumes inv: "Weaver_inv w" and len: "i < length (workers w)" and a: "alive (workers w ! i)"
    and pc: "alive pc"
  shows "\<exists>t. Weaver_sendErr e w = Ok t \<and> Weaver_inv (t\<lparr>workers := (workers w)[i := pc]\<rparr>)"
proof (cases "w_errOnce w")
  case True
  then have "Weaver_sendErr e w = Ok w" by (simp add: Weaver_sendErr_def)
  with Weaver_inv_worker_moved[OF inv len a pc] show ?thesis by simp
next
  case False
  note D = Weaver_invD[OF inv]
  note O = Weaver_alive_open[OF inv len a]
  let ?t = "w\<lparr>w_errOnce := True, w_errChan := (w_errChan w)\<lparr>ch_buf := [e]\<rparr>\<rparr>"
  from False D(2,3) O(2) have se: "Weaver_sendErr e w = Ok ?t"
    by (auto simp: Weaver_sendErr_def chan_send_def)
  have "Weaver_inv ?t"
    by (rule Weaver_invI) (use D in simp_all)
  from Weaver_inv_worker_moved[OF this, of i pc] len a pc
  have "Weaver_inv (?t\<lparr>workers := (workers w)[i := pc]\<rparr>)" by simp
  with se show ?thesis by blast
qed

lemma Weaver_inv_worker_recv:
  assumes inv: "Weaver_inv w" and st: "worker_recv i w = Some w'"
  shows "Weaver_inv w'"
proof -
  from st have len: "i < length (workers w)" and pc: "workers w ! i = WSelect"
    by (auto simp: worker_recv_def split: if_splits)
  then have a: "alive (workers w ! i)" by simp
  show ?thesis
  proof (cases "ch_buf (w_taskQueue w)")
    case Nil
    with st len pc have "w' = w\<lparr>workers := (workers w)[i := WFin]\<rparr>"
      by (auto simp: worker_recv_def chan_recv_def split: if_splits)
    with Weaver_inv_worker_moved[OF inv len a, of WFin] show ?thesis by simp
  next
    case (Cons t ts)
    let ?q = "w\<lparr>w_taskQueue := (w_taskQueue w)\<lparr>ch_buf := ts\<rparr>\<rparr>"
    from Cons st len pc have w': "w' = ?q\<lparr>workers := (workers ?q)[i := WExecute t]\<rparr>"
      by (simp add: worker_recv_def chan_recv_def)
    from Weaver_inv_worker_moved[OF Weaver_inv_queue_buf[OF inv, of ts], of i "WExecute t"] len a
    show ?thesis unfolding w' by simp
  qed
qed

lemma Weaver_inv_worker_done:
  assumes inv: "Weaver_inv w" and st: "worker_done i w = Some w'"
  shows "Weaver_inv w'"
proof -
  from st have len: "i < length (workers w)" and pc: "workers w ! i = WSelect"
    and w': "w' = w\<lparr>workers := (workers w)[i := WFin]\<rparr>"
    by (auto simp: worker_done_def split: if_splits)
  from pc have a: "alive (workers w ! i)" by simp
  from Weaver_inv_worker_moved[OF inv len a, of WFin] w' show ?thesis by simp
qed

lemma Weaver_inv_execute:
  assumes inv: "Weaver_inv w" and st: "execute i w = Some w'"
  shows "Weaver_inv w'"
proof -
  from st have len: "i < length (workers w)"
    by (auto simp: execute_def split: if_splits)
  have mv: "\<And>pc. alive (workers w ! i) \<Longrightarrow> alive pc \<Longrightarrow>
              Weaver_inv (w\<lparr>workers := (workers w)[i := pc]\<rparr>)"
    using Weaver_inv_worker_moved[OF inv len] .
  show ?thesis
  proof (cases "workers w ! i")
    case (WExecute t)
    with st len mv show ?thesis
      by (auto simp: execute_def split: if_splits)
  next
    case (WRunning t)
    with st len mv show ?thesis
      by (auto simp: execute_def split: outcome.splits option.splits)
  next
    case (WSend e)
    then have a: "alive (workers w ! i)" by simp
    from Weaver_sendErr_alive[OF inv len a, of WSelect e] st len WSend show ?thesis
      by (auto simp: execute_def)
  next
    case (WRecover e)
    then have a: "alive (workers w ! i)" by simp
    from Weaver_sendErr_alive[OF inv len a, of WSelect e] st len WRecover show ?thesis
      by (auto simp: execute_def)
  next
    case WFin
    from Weaver_inv_exit[OF inv len WFin] st len WFin show ?thesis
      by (auto simp: execute_def)
  qed (use st len in \<open>simp_all add: execute_def\<close>)
qed

lemma Weaver_inv_Add:
  assumes inv: "Weaver_inv w" and len: "i < length (calls w)"
    and pc: "calls w ! i = AddLoad t \<or> calls w ! i = AddSend t"
    and st: "Add (calls w ! i) w = Some (pc', w')"
  shows "Weaver_inv (w'\<lparr>calls := (calls w)[i := pc']\<rparr>)"
proof -
  have mv: "\<And>p. \<not> closing p \<Longrightarrow> \<not> draining p \<Longrightarrow> \<not> joined p \<Longrightarrow>
              Weaver_inv (w\<lparr>calls := (calls w)[i := p]\<rparr>)"
    using Weaver_inv_call_moved[OF inv len] pc by auto
  from pc show ?thesis
  proof
    assume "calls w ! i = AddLoad t"
    with st mv show ?thesis by (auto simp: Add_def split: if_splits)
  next
    assume p: "calls w ! i = AddSend t"
    let ?q = "w\<lparr>w_taskQueue := (w_taskQueue w)\<lparr>ch_buf := ch_buf (w_taskQueue w) @ [t]\<rparr>\<rparr>"
    have "Weaver_inv ?q" by (rule Weaver_inv_queue_buf[OF inv])
    from Weaver_inv_call_moved[OF this, where i = i and pc = "AddReturned None"] len p
    have "Weaver_inv (?q\<lparr>calls := (calls w)[i := AddReturned None]\<rparr>)" by simp
    with st p mv show ?thesis
      by (auto simp: Add_def chan_send_def split: if_splits)
  qed
qed

lemma Weaver_inv_Wait:
  assumes inv: "Weaver_inv w" and len: "i < length (calls w)"
    and st: "Wait (calls w ! i) w = Some (pc', w')"
  shows "Weaver_inv (w'\<lparr>calls := (calls w)[i := pc']\<rparr>)"
proof -
  note D = Weaver_invD[OF inv]
  have mv: "\<And>p. closing p = closing (calls w ! i) \<Longrightarrow> draining p = draining (calls w ! i) \<Longrightarrow>
              joined p = joined (calls w ! i) \<Longrightarrow> Weaver_inv (w\<lparr>calls := (calls w)[i := p]\<rparr>)"
    using Weaver_inv_call_moved[OF inv len] .
  show ?thesis
  proof (cases "calls w ! i")
    case WaitLoad
    with st mv show ?thesis by (auto simp: Wait_def split: if_splits)
  next
    case WaitCAS
    show ?thesis
    proof (cases "w_isClosed w")
      case True
      with st WaitCAS mv show ?thesis by (auto simp: Wait_def)
    next
      case False
      with st WaitCAS have r: "pc' = WaitCloseQueue" "w' = w\<lparr>w_isClosed := True\<rparr>"
        by (auto simp: Wait_def)
      from False D(7) have nq: "\<not> ch_closed (w_taskQueue w)" by auto
      with D(8) have ne: "\<not> ch_closed (w_errChan w)" by auto
      from count_if_gain[OF len, of closing WaitCloseQueue] WaitCAS
      have c: "count_if closing ((calls w)[i := WaitCloseQueue]) = Suc (count_if closing (calls w))"
        by simp
      from count_if_same[OF len, of draining WaitCloseQueue] WaitCAS
      have d: "count_if draining ((calls w)[i := WaitCloseQueue]) = count_if draining (calls w)"
        by simp
      from count_if_same[OF len, of joined WaitCloseQueue] WaitCAS
      have j: "count_if joined ((calls w)[i := WaitCloseQueue]) = count_if joined (calls w)"
        by simp
      show ?thesis unfolding r
        by (rule Weaver_invI) (use D False nq ne c d j in simp_all)
    qed
  next
    case WaitRecv
    show ?thesis
    proof (cases "ch_buf (w_errChan w)")
      case Nil
      with st WaitRecv mv show ?thesis
        by (auto simp: Wait_def chan_recv_def split: if_splits)
    next
      case (Cons e es)
      let ?q = "w\<lparr>w_errChan := (w_errChan w)\<lparr>ch_buf := es\<rparr>\<rparr>"
      from Cons st WaitRecv have r: "pc' = WaitRead" "w' = ?q"
        by (auto simp: Wait_def chan_recv_def)
      from Weaver_inv_call_moved[OF Weaver_inv_err_taken[OF inv Cons], where i = i and pc = WaitRead]
        len WaitRecv
      show ?thesis unfolding r by simp
    qed
  next
    case WaitRead
    with st mv show ?thesis by (auto simp: Wait_def)
  next
    case WaitCloseQueue
    then have "closing (calls w ! i)" by simp
    from count_if_pos[OF len, of closing, OF this] D(5)
    have op: "w_isClosed w" "\<not> ch_closed (w_taskQueue w)" by (auto split: if_splits)
    with D(8) have ne: "\<not> ch_closed (w_errChan w)" by auto
    from op st WaitCloseQueue
    have r: "pc' = WaitWg" "w' = w\<lparr>w_taskQueue := (w_taskQueue w)\<lparr>ch_closed := True\<rparr>\<rparr>"
      by (auto simp: Wait_def chan_close_def)
    from count_if_drop[OF len, of closing WaitWg] WaitCloseQueue
    have c: "count_if closing (calls w) = Suc (count_if closing ((calls w)[i := WaitWg]))"
      by simp
    from count_if_gain[OF len, of draining WaitWg] WaitCloseQueue
    have d: "count_if draining ((calls w)[i := WaitWg]) = Suc (count_if draining (calls w))"
      by simp
    from count_if_same[OF len, of joined WaitWg] WaitCloseQueue
    have j: "count_if joined ((calls w)[i := WaitWg]) = count_if joined (calls w)"
      by simp
    show ?thesis unfolding r
      by (rule Weaver_invI) (use D op ne c d j in simp_all)
  next
    case WaitWg
    with st have z: "w_wg w = 0" and r: "pc' = WaitSelect" "w' = w"
      by (auto simp: Wait_def split: if_splits)
    from count_if_same[OF len, of closing WaitSelect] WaitWg
    have c: "count_if closing ((calls w)[i := WaitSelect]) = count_if closing (calls w)"
      by simp
    from count_if_same[OF len, of draining WaitSelect] WaitWg
    have d: "count_if draining ((calls w)[i := WaitSelect]) = count_if draining (calls w)"
      by simp
    show ?thesis unfolding r
      by (rule Weaver_invI) (use D z c d in simp_all)
  next
    case WaitSelect
    show ?thesis
    proof (cases "ch_buf (w_errChan w)")
      case Nil
      have "Weaver_inv (w\<lparr>w_finalErr := None\<rparr>)" by (rule Weaver_inv_finalErr[OF inv])
      from Weaver_inv_call_moved[OF this, where i = i and pc = "WaitCancel None"] len WaitSelect
      have "Weaver_inv (w\<lparr>w_finalErr := None, calls := (calls w)[i := WaitCancel None]\<rparr>)"
        by simp
      with Nil st WaitSelect mv show ?thesis
        by (auto simp: Wait_def chan_recv_def split: if_splits)
    next
      case (Cons e es)
      let ?q = "w\<lparr>w_errChan := (w_errChan w)\<lparr>ch_buf := es\<rparr>\<rparr>"
      from Cons st WaitSelect
      have r: "pc' = WaitCancel (Some e)" "w' = ?q\<lparr>w_finalErr := Some e\<rparr>"
        by (auto simp: Wait_def chan_recv_def)
      have "Weaver_inv (?q\<lparr>w_finalErr := Some e\<rparr>)"
        by (rule Weaver_inv_finalErr[OF Weaver_inv_err_taken[OF inv Cons]])
      from Weaver_inv_call_moved[OF this, where i = i and pc = "WaitCancel (Some e)"] len WaitSelect
      show ?thesis unfolding r by simp
    qed
  next
    case (WaitCancel x)
    with st have r: "pc' = WaitCloseErr x" "w' = w\<lparr>cancel_called := True\<rparr>"
      by (auto simp: Wait_def)
    have "Weaver_inv (w\<lparr>cancel_called := True\<rparr>)" by (rule Weaver_inv_cancel_called[OF inv])
    from Weaver_inv_call_moved[OF this, where i = i and pc = "WaitCloseErr x"] len WaitCancel
    show ?thesis unfolding r by simp
  next
    case (WaitCloseErr x)
    then have dr: "draining (calls w ! i)" and jn: "joined (calls w ! i)" by simp_all
    from count_if_pos[OF len, of draining, OF dr] D(6)
    have op: "ch_closed (w_taskQueue w)" "\<not> ch_closed (w_errChan w)" by (auto split: if_splits)
    from count_if_pos[OF len, of joined, OF jn] D(9) have z: "w_wg w = 0" by simp
    from op st WaitCloseErr
    have r: "pc' = WaitReturned x" "w' = w\<lparr>w_errChan := (w_errChan w)\<lparr>ch_closed := True\<rparr>\<rparr>"
      by (auto simp: Wait_def chan_close_def)
    from count_if_same[OF len, of closing "WaitReturned x"] WaitCloseErr
    have c: "count_if closing ((calls w)[i := WaitReturned x]) = count_if closing (calls w)"
      by simp
    from count_if_drop[OF len, of draining "WaitReturned x"] WaitCloseErr
    have d: "count_if draining (calls w) = Suc (count_if draining ((calls w)[i := WaitReturned x]))"
      by simp
    show ?thesis unfolding r
      by (rule Weaver_invI) (use D op z c d in simp_all)
  qed (use st in \<open>simp_all add: Wait_def\<close>)
qed

lemma Weaver_inv_client:
  assumes inv: "Weaver_inv w" and st: "client_step i w = Some w'"
  shows "Weaver_inv w'"
proof -
  from st have len: "i < length (calls w)"
    by (auto simp: client_step_def split: if_splits)
  show ?thesis
  proof (cases "\<exists>t. calls w ! i = AddLoad t \<or> calls w ! i = AddSend t")
    case True
    then obtain t where t: "calls w ! i = AddLoad t \<or> calls w ! i = AddSend t" by blast
    with st len obtain pc' w1 where "Add (calls w ! i) w = Some (pc', w1)"
      "w' = w1\<lparr>calls := (calls w)[i := pc']\<rparr>"
      by (auto simp: client_step_def split: option.splits)
    with Weaver_inv_Add[OF inv len t] show ?thesis by simp
  next
    case False
    with st len obtain pc' w1 where "Wait (calls w ! i) w = Some (pc', w1)"
      "w' = w1\<lparr>calls := (calls w)[i := pc']\<rparr>"
      by (cases "calls w ! i") (auto simp: client_step_def split: option.splits)
    with Weaver_inv_Wait[OF inv len] show ?thesis by simp
  qed
qed

lemma Weaver_inv_step:
  assumes inv: "Weaver_inv w" and st: "Weaver_step ev w = Some w'"
  shows "Weaver_inv w'"
proof (cases ev)
  case ParentCancel
  with st Weaver_inv_parent[OF inv, of True] show ?thesis
    by (auto simp: Weaver_step_def split: if_splits)
next
  case (CallAdd t)
  with st Weaver_inv_call[OF inv, of "AddLoad t"] show ?thesis
    by (auto simp: Weaver_step_def split: if_splits)
next
  case CallWait
  with st Weaver_inv_call[OF inv, of WaitLoad] show ?thesis
    by (auto simp: Weaver_step_def split: if_splits)
next
  case (ClientStep i)
  with st Weaver_inv_client[OF inv, of i w'] show ?thesis
    by (simp add: Weaver_step_def split: if_splits)
next
  case (WorkerRecv i)
  with st Weaver_inv_worker_recv[OF inv, of i w'] show ?thesis
    by (simp add: Weaver_step_def split: if_splits)
next
  case (WorkerDone i)
  with st Weaver_inv_worker_done[OF inv, of i w'] show ?thesis
    by (simp add: Weaver_step_def split: if_splits)
next
  case (WorkerStep i)
  with st Weaver_inv_execute[OF inv, of i w'] show ?thesis
    by (simp add: Weaver_step_def split: if_splits)
qed

lemma Weaver_inv_run: "Weaver_inv w \<Longrightarrow> Weaver evs w = Some w' \<Longrightarrow> Weaver_inv w'"
proof (induction evs arbitrary: w)
  case Nil
  then show ?case by simp
next
  case (Cons ev evs)
  then show ?case
    by (cases "Weaver_step ev w") (auto dest: Weaver_inv_step)
qed

section \<open>Construction of the pool\<close>


section \<open>Races of the final select and of Wait\<close>

text \<open>
  Claim C1, at a failing run. One task that returns the error \<open>E\<close>, the context not
  cancelled on entry. The loop starts the task and the closing goroutine; the task returns
  \<open>E\<close> and \<^verbatim>\<open>sendErr\<close> stores it in the slot; then the context is cancelled; the final
  \<^verbatim>\<open>select\<close> has both cases ready and takes \<^verbatim>\<open><-ctx.Done()\<close>: \<^verbatim>\<open>Sail\<close> returns the
  cancellation error although the failure was recorded before.
\<close>

theorem Sail_cancel_after_failure:
  "Sail_slot [MainStep, MainStep, GoStep 0, GoStep 0] (Sail_init False [taskFail (Err ''E'')])
     = Some [Err ''E'']
   \<and> Sail_result [MainStep, MainStep, GoStep 0, GoStep 0, Cancel, SelectDone]
         (Sail_init False [taskFail (Err ''E'')])
     = Some (Some CtxErr)"
  by (simp add: sail_defs)

text \<open>
  Claim C3, at a failing run. The context is cancelled on entry and there are two tasks, as
  in \<^verbatim>\<open>TestSail_ContextCancel\<close>. The loop skips both; the closing goroutine finds the
  counter at zero and closes the channel before the caller reaches the \<^verbatim>\<open>select\<close>; both
  cases are ready and the \<^verbatim>\<open>select\<close> takes the receive from the closed channel:
  \<^verbatim>\<open>Sail\<close> returns \<^verbatim>\<open>nil\<close>. Both tasks were skipped; none ran.
\<close>

theorem Sail_cancelled_before_dispatch:
  "Sail_result [MainStep, MainStep, MainStep, CloserStep, CloserStep, SelectErr]
     (Sail_init True [taskOK, taskOK]) = Some None
   \<and> map_option gos
       (Sail [MainStep, MainStep, MainStep, CloserStep, CloserStep, SelectErr]
          (Sail_init True [taskOK, taskOK]))
     = Some [GSkipped, GSkipped]"
  by (simp add: sail_defs)

text \<open>
  Claim C2, at a failing run. A pool of one worker; \<^verbatim>\<open>Add\<close> of a task that returns \<open>E\<close>;
  two concurrent calls of \<^verbatim>\<open>Wait\<close>. The first wins the \<^verbatim>\<open>CompareAndSwap\<close>; the second sees
  the pool closed and waits at \<^verbatim>\<open><-w.errChan\<close>. The worker runs the task and stores \<open>E\<close> in
  the slot (second equation). The losing call then receives \<open>E\<close> from the channel, drops it
  and returns \<^verbatim>\<open>w.finalErr\<close>, still \<^verbatim>\<open>nil\<close>; the winner closes the queue, waits for the
  worker, finds the channel empty and returns \<^verbatim>\<open>nil\<close> as well.
\<close>

theorem Wait_loser_takes_failure:
  "map_option calls
     (Weaver_from False 1
        [CallAdd (taskFail (Err ''E'')), ClientStep 0, ClientStep 0,
         CallWait, CallWait, ClientStep 1, ClientStep 1, ClientStep 2,
         WorkerRecv 0, WorkerStep 0, WorkerStep 0, WorkerStep 0,
         ClientStep 2, ClientStep 2,
         ClientStep 1, WorkerRecv 0, WorkerStep 0,
         ClientStep 1, ClientStep 1, ClientStep 1, ClientStep 1])
   = Some [AddReturned None, WaitReturned None, WaitReturned None]
   \<and> Weaver_slot False 1
        [CallAdd (taskFail (Err ''E'')), ClientStep 0, ClientStep 0,
         CallWait, CallWait, ClientStep 1, ClientStep 1, ClientStep 2,
         WorkerRecv 0, WorkerStep 0, WorkerStep 0, WorkerStep 0]
   = Some [Err ''E'']"
  by (simp add: weaver_defs Weaver_slot_def)

section \<open>What a step leaves unchanged\<close>

lemma Weaver_sendErr_frame:
  assumes "Weaver_sendErr e w = Ok t \<or> Weaver_sendErr e w = Panic t"
  shows "workers t = workers w \<and> calls t = calls w \<and> w_isClosed t = w_isClosed w \<and>
         parent_cancelled t = parent_cancelled w \<and> cancel_called t = cancel_called w \<and>
         w_taskQueue t = w_taskQueue w"
  using assms
  by (auto simp: Weaver_sendErr_def split: if_splits sent.splits)

lemma execute_frame:
  assumes st: "execute i w = Some w'"
  shows "length (workers w') = length (workers w) \<and> calls w' = calls w \<and>
         w_isClosed w' = w_isClosed w \<and> parent_cancelled w' = parent_cancelled w \<and>
         cancel_called w' = cancel_called w \<and> w_taskQueue w' = w_taskQueue w \<and>
         (\<forall>j. j \<noteq> i \<longrightarrow> workers w' ! j = workers w ! j)"
proof -
  from st have len: "i < length (workers w)"
    by (simp add: execute_def split: if_splits)
  have upd: "\<And>t pc. workers t = workers w \<and> calls t = calls w \<and> w_isClosed t = w_isClosed w \<and>
         parent_cancelled t = parent_cancelled w \<and> cancel_called t = cancel_called w \<and>
         w_taskQueue t = w_taskQueue w \<Longrightarrow> w' = t\<lparr>workers := (workers w)[i := pc]\<rparr> \<Longrightarrow> ?thesis"
    by simp
  show ?thesis
  proof (cases "workers w ! i")
    case (WExecute t)
    with st len have "\<exists>pc. w' = w\<lparr>workers := (workers w)[i := pc]\<rparr>"
      by (cases "workerCtx_cancelled w") (auto simp: execute_def)
    with upd[of w] show ?thesis by blast
  next
    case (WRunning t)
    with st len have "\<exists>pc. w' = w\<lparr>workers := (workers w)[i := pc]\<rparr>"
      by (cases "t (workerCtx_cancelled w)") (auto simp: execute_def split: option.splits)
    with upd[of w] show ?thesis by blast
  next
    case (WSend e)
    show ?thesis
    proof (cases "Weaver_sendErr e w")
      case (Ok t)
      with st len WSend have "w' = t\<lparr>workers := (workers w)[i := WSelect]\<rparr>"
        by (simp add: execute_def)
      with upd[of t] Weaver_sendErr_frame[of e w t] Ok show ?thesis by blast
    next
      case Block
      with st len WSend show ?thesis by (simp add: execute_def)
    next
      case (Panic t)
      with st len WSend
      have "w' = t\<lparr>workers := (workers w)[i := WRecover (panic_error ''send on closed channel'')]\<rparr>"
        by (simp add: execute_def)
      with upd[of t] Weaver_sendErr_frame[of e w t] Panic show ?thesis by blast
    qed
  next
    case (WRecover e)
    show ?thesis
    proof (cases "Weaver_sendErr e w")
      case (Ok t)
      with st len WRecover have "w' = t\<lparr>workers := (workers w)[i := WSelect]\<rparr>"
        by (simp add: execute_def)
      with upd[of t] Weaver_sendErr_frame[of e w t] Ok show ?thesis by blast
    next
      case Block
      with st len WRecover show ?thesis by (simp add: execute_def)
    next
      case (Panic t)
      with st len WRecover have "w' = t\<lparr>w_crashed := True\<rparr>"
        by (simp add: execute_def)
      with Weaver_sendErr_frame[of e w t] Panic show ?thesis by simp
    qed
  next
    case WFin
    with st len show ?thesis
      by (auto simp: execute_def split: if_splits)
  next
    case WSelect
    with st len show ?thesis by (simp add: execute_def)
  next
    case WExited
    with st len show ?thesis by (simp add: execute_def)
  qed
qed

lemma worker_recv_frame:
  assumes "worker_recv i w = Some w'"
  shows "length (workers w') = length (workers w) \<and> calls w' = calls w \<and>
         w_isClosed w' = w_isClosed w \<and> parent_cancelled w' = parent_cancelled w \<and>
         cancel_called w' = cancel_called w \<and>
         (\<forall>j. j \<noteq> i \<longrightarrow> workers w' ! j = workers w ! j) \<and> workers w ! i = WSelect \<and>
         (\<forall>t. workers w' ! i \<noteq> WRunning t)"
  using assms
  by (cases "ch_buf (w_taskQueue w)")
     (auto simp: worker_recv_def chan_recv_def split: if_splits)

lemma worker_done_frame:
  assumes "worker_done i w = Some w'"
  shows "length (workers w') = length (workers w) \<and> calls w' = calls w \<and>
         w_isClosed w' = w_isClosed w \<and> parent_cancelled w' = parent_cancelled w \<and>
         cancel_called w' = cancel_called w \<and> w_taskQueue w' = w_taskQueue w \<and>
         (\<forall>j. j \<noteq> i \<longrightarrow> workers w' ! j = workers w ! j) \<and> workers w ! i = WSelect \<and>
         (\<forall>t. workers w' ! i \<noteq> WRunning t)"
  using assms
  by (auto simp: worker_done_def split: if_splits)

lemma Add_frame:
  assumes "Add pc w = Some (pc', w')"
  shows "workers w' = workers w \<and> calls w' = calls w \<and> w_isClosed w' = w_isClosed w \<and>
         parent_cancelled w' = parent_cancelled w \<and> cancel_called w' = cancel_called w \<and>
         w_crashed w' = w_crashed w"
  using assms
  by (cases pc) (auto simp: Add_def chan_send_def split: if_splits)

lemma Wait_frame:
  assumes "Wait pc w = Some (pc', w')"
  shows "workers w' = workers w \<and> calls w' = calls w \<and> (w_isClosed w \<longrightarrow> w_isClosed w') \<and>
         parent_cancelled w' = parent_cancelled w \<and> (cancel_called w \<longrightarrow> cancel_called w')"
  using assms
  by (cases pc; cases "ch_buf (w_errChan w)")
     (auto simp: Wait_def chan_recv_def chan_close_def split: if_splits)

lemma client_step_frame:
  assumes "client_step i w = Some w'"
  shows "workers w' = workers w \<and> length (calls w') = length (calls w) \<and>
         (w_isClosed w \<longrightarrow> w_isClosed w') \<and> parent_cancelled w' = parent_cancelled w \<and>
         (cancel_called w \<longrightarrow> cancel_called w') \<and>
         (\<forall>j. j \<noteq> i \<longrightarrow> calls w' ! j = calls w ! j)"
proof -
  from assms have len: "i < length (calls w)"
    by (simp add: client_step_def split: if_splits)
  from assms len obtain pc' w1 where
    r: "Add (calls w ! i) w = Some (pc', w1) \<or> Wait (calls w ! i) w = Some (pc', w1)"
    and w': "w' = w1\<lparr>calls := (calls w)[i := pc']\<rparr>"
    by (cases "calls w ! i") (auto simp: client_step_def split: option.splits)
  from r Add_frame[of "calls w ! i" w pc' w1] Wait_frame[of "calls w ! i" w pc' w1]
  have "workers w1 = workers w \<and> calls w1 = calls w \<and> (w_isClosed w \<longrightarrow> w_isClosed w1) \<and>
         parent_cancelled w1 = parent_cancelled w \<and> (cancel_called w \<longrightarrow> cancel_called w1)"
    by blast
  with w' show ?thesis by simp
qed

lemma Weaver_step_frame:
  assumes "Weaver_step ev w = Some w'"
  shows "length (workers w') = length (workers w) \<and> length (calls w) \<le> length (calls w') \<and>
         (w_isClosed w \<longrightarrow> w_isClosed w') \<and> (workerCtx_cancelled w \<longrightarrow> workerCtx_cancelled w') \<and>
         (\<forall>k<length (calls w). ev \<noteq> ClientStep k \<longrightarrow> calls w' ! k = calls w ! k)"
proof (cases ev)
  case ParentCancel
  with assms show ?thesis
    by (auto simp: Weaver_step_def workerCtx_cancelled_def split: if_splits)
next
  case (CallAdd t)
  with assms show ?thesis
    by (auto simp: Weaver_step_def workerCtx_cancelled_def nth_append split: if_splits)
next
  case CallWait
  with assms show ?thesis
    by (auto simp: Weaver_step_def workerCtx_cancelled_def nth_append split: if_splits)
next
  case (ClientStep i)
  with assms have "client_step i w = Some w'"
    by (simp add: Weaver_step_def split: if_splits)
  from client_step_frame[OF this] ClientStep show ?thesis
    by (simp add: workerCtx_cancelled_def)
next
  case (WorkerRecv i)
  with assms have "worker_recv i w = Some w'"
    by (simp add: Weaver_step_def split: if_splits)
  from worker_recv_frame[OF this] show ?thesis
    by (simp add: workerCtx_cancelled_def)
next
  case (WorkerDone i)
  with assms have "worker_done i w = Some w'"
    by (simp add: Weaver_step_def split: if_splits)
  from worker_done_frame[OF this] show ?thesis
    by (simp add: workerCtx_cancelled_def)
next
  case (WorkerStep i)
  with assms have "execute i w = Some w'"
    by (simp add: Weaver_step_def split: if_splits)
  from execute_frame[OF this] show ?thesis
    by (simp add: workerCtx_cancelled_def)
qed

lemma Weaver_run_frame:
  assumes "Weaver evs w = Some w'"
  shows "length (workers w') = length (workers w) \<and> length (calls w) \<le> length (calls w') \<and>
         (w_isClosed w \<longrightarrow> w_isClosed w') \<and> (workerCtx_cancelled w \<longrightarrow> workerCtx_cancelled w')"
  using assms
proof (induction evs arbitrary: w)
  case Nil
  then show ?case by simp
next
  case (Cons ev evs)
  then obtain w1 where s: "Weaver_step ev w = Some w1" and r: "Weaver evs w1 = Some w'"
    by (cases "Weaver_step ev w") auto
  from Weaver_step_frame[OF s] Cons.IH[OF r] show ?case by auto
qed

section \<open>The reachable states of a pool\<close>

lemma Weaver_from_inv:
  assumes "Weaver_from c n evs = Some w"
  shows "Weaver_inv w"
proof (cases "NewWeaver c n")
  case (Inl e)
  with assms show ?thesis by (simp add: Weaver_from_def)
next
  case (Inr w0)
  with assms have "Weaver evs w0 = Some w" by (simp add: Weaver_from_def)
  from Weaver_inv_run[OF Weaver_inv_new[OF Inr] this] show ?thesis .
qed

lemma Weaver_from_workers:
  assumes "Weaver_from c n evs = Some w"
  shows "length (workers w) = nat n"
proof (cases "NewWeaver c n")
  case (Inl e)
  with assms show ?thesis by (simp add: Weaver_from_def)
next
  case (Inr w0)
  with assms have r: "Weaver evs w0 = Some w" by (simp add: Weaver_from_def)
  from Inr have "length (workers w0) = nat n"
    by (auto simp: NewWeaver_def split: if_splits)
  with Weaver_run_frame[OF r] show ?thesis by simp
qed

text \<open>
  Claim C5. In every state that a pool built with concurrency \<open>n\<close> reaches, under any
  schedule of calls, cancellation and worker steps, there are exactly \<open>n\<close> workers, the ones
  started at construction, and each is at one program point, so at most \<open>n\<close> of them are
  running a task.
\<close>

theorem Weaver_concurrency_ceiling:
  assumes "Weaver_from c n evs = Some w"
  shows "length (workers w) = nat n \<and> count_if running (workers w) \<le> nat n"
  using Weaver_from_workers[OF assms] count_if_le_length[of running "workers w"] by simp

text \<open>
  With two workers and three tasks submitted, two tasks run and the third waits in the queue.
\<close>

theorem Weaver_concurrency_ceiling_witness:
  "map_option workers
     (Weaver_from False 2
        [CallAdd taskOK, ClientStep 0, ClientStep 0, CallAdd taskOK, ClientStep 1, ClientStep 1,
         WorkerRecv 0, WorkerStep 0, WorkerRecv 1, WorkerStep 1,
         CallAdd taskOK, ClientStep 2, ClientStep 2])
     = Some [WRunning taskOK, WRunning taskOK]
   \<and> map_option queued
     (Weaver_from False 2
        [CallAdd taskOK, ClientStep 0, ClientStep 0, CallAdd taskOK, ClientStep 1, ClientStep 1,
         WorkerRecv 0, WorkerStep 0, WorkerRecv 1, WorkerStep 1,
         CallAdd taskOK, ClientStep 2, ClientStep 2])
     = Some 1
   \<and> count_if running [WRunning taskOK, WRunning taskOK] \<le> nat 2"
proof -
  let ?evs = "[CallAdd taskOK, ClientStep 0, ClientStep 0, CallAdd taskOK, ClientStep 1, ClientStep 1,
         WorkerRecv 0, WorkerStep 0, WorkerRecv 1, WorkerStep 1,
         CallAdd taskOK, ClientStep 2, ClientStep 2]"
  have r: "Weaver_from False 2 ?evs = Some (the (Weaver_from False 2 ?evs))"
    by (simp add: weaver_defs eval_nat_numeral)
  have w: "workers (the (Weaver_from False 2 ?evs)) = [WRunning taskOK, WRunning taskOK]"
    by (simp add: weaver_defs eval_nat_numeral)
  have q: "queued (the (Weaver_from False 2 ?evs)) = 1"
    by (simp add: weaver_defs queued_def eval_nat_numeral)
  from Weaver_concurrency_ceiling[OF r] w q r show ?thesis
    by (metis option.simps(9))
qed

section \<open>Add on a closed pool\<close>

lemma client_step_AddLoad_closed:
  assumes "k < length (calls w)" "calls w ! k = AddLoad t" "w_isClosed w"
  shows "client_step k w =
         Some (w\<lparr>calls := (calls w)[k := AddReturned (Some (Err ''weave: weaver is closed''))]\<rparr>)"
  using assms by (simp add: client_step_def Add_def)

lemma client_step_AddReturned:
  assumes "calls w ! k = AddReturned r"
  shows "client_step k w = None"
  using assms by (simp add: client_step_def)

lemma refused_step:
  assumes r: "refused k t w" and st: "Weaver_step ev w = Some w'"
  shows "refused k t w'"
proof (cases "ev = ClientStep k")
  case True
  from r have k: "k < length (calls w)" and c: "w_isClosed w" by (simp_all add: refused_def)
  from r have "calls w ! k = AddLoad t \<or> calls w ! k = AddReturned (Some (Err ''weave: weaver is closed''))"
    by (simp add: refused_def)
  then show ?thesis
  proof
    assume a: "calls w ! k = AddLoad t"
    from st True client_step_AddLoad_closed[OF k a c] k c show ?thesis
      by (auto simp: Weaver_step_def refused_def split: if_splits)
  next
    assume a: "calls w ! k = AddReturned (Some (Err ''weave: weaver is closed''))"
    from st True client_step_AddReturned[OF a] show ?thesis
      by (simp add: Weaver_step_def split: if_splits)
  qed
next
  case False
  from r have k: "k < length (calls w)" by (simp add: refused_def)
  from Weaver_step_frame[OF st] False k r show ?thesis
    by (auto simp: refused_def)
qed

lemma refused_run:
  assumes "refused k t w" "Weaver evs w = Some w'"
  shows "refused k t w'"
  using assms
proof (induction evs arbitrary: w)
  case Nil
  then show ?case by simp
next
  case (Cons ev evs)
  then obtain w1 where s: "Weaver_step ev w = Some w1" and r: "Weaver evs w1 = Some w'"
    by (cases "Weaver_step ev w") auto
  from Cons.IH[OF refused_step[OF Cons.prems(1) s] r] show ?case .
qed

text \<open>
  Claim C4. Take a pool in any reachable state in which draining has begun (\<^verbatim>\<open>isClosed\<close> is
  set), and a call of \<^verbatim>\<open>Add(t)\<close> made then. At every later time the call either has
  returned the closed-pool error, or is still at its first step, and that step can be taken
  (it does not block), returns the closed-pool error and changes nothing else. The call never
  reaches the send to the queue, the only place where \<^verbatim>\<open>Add\<close> can block or panic.
\<close>

theorem Add_on_closed_pool:
  assumes reach: "Weaver_from c n evs = Some w" and cl: "w_isClosed w"
    and later: "Weaver (CallAdd t # evs') w = Some w'"
  shows "calls w' ! length (calls w) = AddReturned (Some (Err ''weave: weaver is closed'')) \<or>
         (calls w' ! length (calls w) = AddLoad t \<and>
          Weaver_step (ClientStep (length (calls w))) w' =
            Some (w'\<lparr>calls := (calls w')[length (calls w) :=
                                   AddReturned (Some (Err ''weave: weaver is closed''))]\<rparr>))"
proof -
  let ?k = "length (calls w)"
  from later obtain w1 where s: "Weaver_step (CallAdd t) w = Some w1"
    and r: "Weaver evs' w1 = Some w'"
    by (cases "Weaver_step (CallAdd t) w") auto
  from s cl have "refused ?k t w1"
    by (auto simp: Weaver_step_def refused_def split: if_splits)
  from refused_run[OF this r] have rf: "refused ?k t w'" .
  from Weaver_inv_run[OF Weaver_from_inv[OF reach] later] have "\<not> w_crashed w'"
    by (rule Weaver_invD(10))
  with rf client_step_AddLoad_closed[of ?k w' t] show ?thesis
    by (auto simp: refused_def Weaver_step_def)
qed

text \<open>
  A call of \<^verbatim>\<open>Wait\<close> wins the swap; an \<^verbatim>\<open>Add\<close> made afterwards is refused, whatever
  happens in between.
\<close>

theorem Add_on_closed_pool_witness:
  "map_option w_isClosed (Weaver_from False 1 [CallWait, ClientStep 0, ClientStep 0]) = Some True \<and>
   map_option calls
     (Weaver_from False 1 [CallWait, ClientStep 0, ClientStep 0, CallAdd taskOK, ClientStep 0,
        WorkerRecv 0, ClientStep 1])
   = Some [WaitWg, AddReturned (Some (Err ''weave: weaver is closed''))]"
proof -
  let ?evs = "[CallWait, ClientStep 0, ClientStep 0]"
  let ?evs' = "[ClientStep 0, WorkerRecv 0]"
  let ?w = "the (Weaver_from False 1 ?evs)"
  let ?w' = "the (Weaver (CallAdd taskOK # ?evs') ?w)"
  have a: "Weaver_from False 1 ?evs = Some ?w" by (simp add: weaver_defs)
  have b: "w_isClosed ?w" by (simp add: weaver_defs)
  have c: "Weaver (CallAdd taskOK # ?evs') ?w = Some ?w'" by (simp add: weaver_defs)
  have d: "calls ?w' ! length (calls ?w) = AddLoad taskOK" by (simp add: weaver_defs)
  have e: "Weaver_from False 1 (?evs @ CallAdd taskOK # ?evs' @ [ClientStep 1]) =
           Weaver_step (ClientStep (length (calls ?w))) ?w'"
    by (simp add: weaver_defs)
  from Add_on_closed_pool[OF a b c] d
  have "Weaver_step (ClientStep (length (calls ?w))) ?w' =
        Some (?w'\<lparr>calls := (calls ?w')[length (calls ?w) :=
                                   AddReturned (Some (Err ''weave: weaver is closed''))]\<rparr>)"
    by simp
  with e have "map_option calls (Weaver_from False 1 (?evs @ CallAdd taskOK # ?evs' @ [ClientStep 1]))
      = Some ((calls ?w')[length (calls ?w) := AddReturned (Some (Err ''weave: weaver is closed''))])"
    by simp
  moreover have "(calls ?w')[length (calls ?w) := AddReturned (Some (Err ''weave: weaver is closed''))]
      = [WaitWg, AddReturned (Some (Err ''weave: weaver is closed''))]"
    by (simp add: weaver_defs)
  moreover have "map_option w_isClosed (Weaver_from False 1 ?evs) = Some True"
    by (simp add: weaver_defs)
  ultimately show ?thesis by simp
qed

section \<open>Workers and cancellation\<close>

text \<open>
  Claim C8, as stated, fails: a worker can pull a queued task after cancellation. A pool of
  one worker; one task is submitted and waits in the queue; the parent context is cancelled.
  The worker's \<^verbatim>\<open>select\<close> has both cases ready and takes the receive: the task leaves the
  queue and is handed to \<^verbatim>\<open>execute\<close>.
\<close>

theorem worker_pulls_after_cancel:
  "map_option workerCtx_cancelled
     (Weaver_from False 1 [CallAdd taskOK, ClientStep 0, ClientStep 0, ParentCancel]) = Some True
   \<and> map_option queued
     (Weaver_from False 1 [CallAdd taskOK, ClientStep 0, ClientStep 0, ParentCancel]) = Some 1
   \<and> map_option workers
     (Weaver_from False 1 [CallAdd taskOK, ClientStep 0, ClientStep 0, ParentCancel])
     = Some [WSelect]
   \<and> map_option queued
     (Weaver_from False 1 [CallAdd taskOK, ClientStep 0, ClientStep 0, ParentCancel, WorkerRecv 0])
     = Some 0
   \<and> map_option workers
     (Weaver_from False 1 [CallAdd taskOK, ClientStep 0, ClientStep 0, ParentCancel, WorkerRecv 0])
     = Some [WExecute taskOK]"
  by (simp add: weaver_defs queued_def)

lemma execute_WExecute:
  assumes "i < length (workers w)" "workers w ! i = WExecute t"
  shows "execute i w =
         Some (w\<lparr>workers := (workers w)[i := if workerCtx_cancelled w then WSelect else WRunning t]\<rparr>)"
  using assms by (simp add: execute_def)

lemma execute_WRunning:
  assumes "i < length (workers w)" "workers w ! i = WRunning t"
  shows "execute i w =
         Some (w\<lparr>workers := (workers w)[i := after_task (t (workerCtx_cancelled w))]\<rparr>)"
  using assms
  by (cases "t (workerCtx_cancelled w)")
     (auto simp: execute_def after_task_def split: option.splits)

lemma execute_started:
  assumes st: "execute i w = Some w'" and run: "workers w' ! i = WRunning t"
  shows "workers w ! i = WExecute t \<and> \<not> workerCtx_cancelled w"
proof -
  from st have len: "i < length (workers w)"
    by (simp add: execute_def split: if_splits)
  show ?thesis
  proof (cases "workers w ! i")
    case (WExecute u)
    from st execute_WExecute[OF len WExecute]
    have "w' = w\<lparr>workers := (workers w)[i := if workerCtx_cancelled w then WSelect else WRunning u]\<rparr>"
      by simp
    with run len WExecute show ?thesis
      by (cases "workerCtx_cancelled w") simp_all
  next
    case (WRunning u)
    from st execute_WRunning[OF len WRunning]
    have "w' = w\<lparr>workers := (workers w)[i := after_task (u (workerCtx_cancelled w))]\<rparr>"
      by simp
    with len have "workers w' ! i = after_task (u (workerCtx_cancelled w))" by simp
    with run show ?thesis
      by (cases "u (workerCtx_cancelled w)") (simp_all add: after_task_def split: option.splits)
  next
    case (WSend e)
    show ?thesis
    proof (cases "Weaver_sendErr e w")
      case (Ok u)
      with st len WSend have "w' = u\<lparr>workers := (workers w)[i := WSelect]\<rparr>"
        by (simp add: execute_def)
      with len run show ?thesis by simp
    next
      case Block
      with st len WSend show ?thesis by (simp add: execute_def)
    next
      case (Panic u)
      with st len WSend
      have "w' = u\<lparr>workers := (workers w)[i := WRecover (panic_error ''send on closed channel'')]\<rparr>"
        by (simp add: execute_def)
      with len run show ?thesis by simp
    qed
  next
    case (WRecover e)
    show ?thesis
    proof (cases "Weaver_sendErr e w")
      case (Ok u)
      with st len WRecover have "w' = u\<lparr>workers := (workers w)[i := WSelect]\<rparr>"
        by (simp add: execute_def)
      with len run show ?thesis by simp
    next
      case Block
      with st len WRecover show ?thesis by (simp add: execute_def)
    next
      case (Panic u)
      with st len WRecover have "w' = u\<lparr>w_crashed := True\<rparr>"
        by (simp add: execute_def)
      moreover from Panic Weaver_sendErr_frame[of e w u] have "workers u = workers w" by simp
      ultimately have "workers w' ! i = WRecover e" using WRecover by simp
      with run show ?thesis by simp
    qed
  next
    case WFin
    with st len have "workers w' ! i = WFin \<or> workers w' ! i = WExited"
      by (cases "w_wg w = 0") (auto simp: execute_def)
    with run show ?thesis by auto
  next
    case WSelect
    with st len show ?thesis by (simp add: execute_def)
  next
    case WExited
    with st len show ?thesis by (simp add: execute_def)
  qed
qed

lemma Weaver_step_started:
  assumes st: "Weaver_step ev w = Some w'" and len: "i < length (workers w)"
    and run: "workers w' ! i = WRunning t" and was: "workers w ! i \<noteq> WRunning t"
  shows "ev = WorkerStep i \<and> workers w ! i = WExecute t \<and> \<not> workerCtx_cancelled w"
proof (cases ev)
  case ParentCancel
  with st run was show ?thesis by (auto simp: Weaver_step_def split: if_splits)
next
  case (CallAdd u)
  with st run was show ?thesis by (auto simp: Weaver_step_def split: if_splits)
next
  case CallWait
  with st run was show ?thesis by (auto simp: Weaver_step_def split: if_splits)
next
  case (ClientStep j)
  with st have "client_step j w = Some w'" by (simp add: Weaver_step_def split: if_splits)
  from client_step_frame[OF this] run was show ?thesis by simp
next
  case (WorkerRecv j)
  with st have "worker_recv j w = Some w'" by (simp add: Weaver_step_def split: if_splits)
  from worker_recv_frame[OF this] run was show ?thesis by (cases "j = i") auto
next
  case (WorkerDone j)
  with st have "worker_done j w = Some w'" by (simp add: Weaver_step_def split: if_splits)
  from worker_done_frame[OF this] run was show ?thesis by (cases "j = i") auto
next
  case (WorkerStep j)
  with st have e: "execute j w = Some w'" by (simp add: Weaver_step_def split: if_splits)
  show ?thesis
  proof (cases "j = i")
    case True
    with execute_started[of i w w' t] e run WorkerStep show ?thesis by simp
  next
    case False
    with execute_frame[OF e] run was show ?thesis by simp
  qed
qed

lemma Weaver_step_running_kept:
  assumes st: "Weaver_step ev w = Some w'" and ev: "ev \<noteq> WorkerStep i"
    and run: "workers w ! i = WRunning t"
  shows "workers w' ! i = WRunning t"
proof (cases ev)
  case ParentCancel
  with st run show ?thesis by (auto simp: Weaver_step_def split: if_splits)
next
  case (CallAdd u)
  with st run show ?thesis by (auto simp: Weaver_step_def split: if_splits)
next
  case CallWait
  with st run show ?thesis by (auto simp: Weaver_step_def split: if_splits)
next
  case (ClientStep j)
  with st have "client_step j w = Some w'" by (simp add: Weaver_step_def split: if_splits)
  from client_step_frame[OF this] run show ?thesis by simp
next
  case (WorkerRecv j)
  with st have "worker_recv j w = Some w'" by (simp add: Weaver_step_def split: if_splits)
  from worker_recv_frame[OF this] run show ?thesis by (cases "j = i") auto
next
  case (WorkerDone j)
  with st have "worker_done j w = Some w'" by (simp add: Weaver_step_def split: if_splits)
  from worker_done_frame[OF this] run show ?thesis by (cases "j = i") auto
next
  case (WorkerStep j)
  with st have e: "execute j w = Some w'" by (simp add: Weaver_step_def split: if_splits)
  from WorkerStep ev have "j \<noteq> i" by simp
  with execute_frame[OF e] run show ?thesis by simp
qed

text \<open>
  Claim C8, amended. Once the workers' context is cancelled it stays cancelled and no task
  begins to run: whatever step is taken, a worker that runs a task afterwards ran it before.
  A worker at its \<^verbatim>\<open>select\<close> can take \<^verbatim>\<open><-ctx.Done()\<close> and leave its loop; a task that a worker
  pulled is dropped by \<^verbatim>\<open>execute\<close> at the check of \<^verbatim>\<open>ctx.Err()\<close>, without being called. A
  running task is not interrupted, by cancellation or by any other step: it ends by its own
  step only, which is always possible and leaves the worker where the task's outcome (which
  may depend on the cancellation it observes) sends it.
\<close>

theorem no_task_starts_after_cancel:
  assumes st: "Weaver_step ev w = Some w'" and len: "i < length (workers w)"
  shows "(workerCtx_cancelled w \<longrightarrow>
            workerCtx_cancelled w' \<and>
            (\<forall>t. workers w' ! i = WRunning t \<longrightarrow> workers w ! i = WRunning t)) \<and>
         (workerCtx_cancelled w \<and> workers w ! i = WSelect \<longrightarrow>
            Weaver_step (WorkerDone i) w = Some (w\<lparr>workers := (workers w)[i := WFin]\<rparr>)) \<and>
         (workerCtx_cancelled w \<and> workers w ! i = WExecute t \<longrightarrow>
            Weaver_step (WorkerStep i) w = Some (w\<lparr>workers := (workers w)[i := WSelect]\<rparr>)) \<and>
         (workers w ! i = WRunning t \<and> ev \<noteq> WorkerStep i \<longrightarrow> workers w' ! i = WRunning t) \<and>
         (workers w ! i = WRunning t \<longrightarrow>
            Weaver_step (WorkerStep i) w =
              Some (w\<lparr>workers := (workers w)[i := after_task (t (workerCtx_cancelled w))]\<rparr>))"
proof -
  from st have nc: "\<not> w_crashed w" by (auto simp: Weaver_step_def split: if_splits)
  have "workerCtx_cancelled w \<longrightarrow> workerCtx_cancelled w'"
    using Weaver_step_frame[OF st] by simp
  moreover have "workerCtx_cancelled w \<longrightarrow>
      (\<forall>t. workers w' ! i = WRunning t \<longrightarrow> workers w ! i = WRunning t)"
    using Weaver_step_started[OF st len] by blast
  moreover have "workerCtx_cancelled w \<and> workers w ! i = WSelect \<longrightarrow>
      Weaver_step (WorkerDone i) w = Some (w\<lparr>workers := (workers w)[i := WFin]\<rparr>)"
    using nc len by (simp add: Weaver_step_def worker_done_def)
  moreover have "workerCtx_cancelled w \<and> workers w ! i = WExecute t \<longrightarrow>
      Weaver_step (WorkerStep i) w = Some (w\<lparr>workers := (workers w)[i := WSelect]\<rparr>)"
    using nc execute_WExecute[OF len, of t] by (simp add: Weaver_step_def)
  moreover have "workers w ! i = WRunning t \<and> ev \<noteq> WorkerStep i \<longrightarrow> workers w' ! i = WRunning t"
    using Weaver_step_running_kept[OF st] by blast
  moreover have "workers w ! i = WRunning t \<longrightarrow>
      Weaver_step (WorkerStep i) w =
        Some (w\<lparr>workers := (workers w)[i := after_task (t (workerCtx_cancelled w))]\<rparr>)"
    using nc execute_WRunning[OF len, of t] by (simp add: Weaver_step_def)
  ultimately show ?thesis by blast
qed

text \<open>The task pulled after cancellation in the run above is dropped by the next step.\<close>

theorem no_task_starts_after_cancel_witness:
  "map_option workerCtx_cancelled
     (Weaver_from False 1 [CallAdd taskOK, ClientStep 0, ClientStep 0, ParentCancel, WorkerRecv 0])
     = Some True
   \<and> map_option workers
     (Weaver_from False 1 [CallAdd taskOK, ClientStep 0, ClientStep 0, ParentCancel, WorkerRecv 0])
     = Some [WExecute taskOK]
   \<and> map_option workers
     (Weaver_from False 1
        [CallAdd taskOK, ClientStep 0, ClientStep 0, ParentCancel, WorkerRecv 0, WorkerStep 0])
     = Some [WSelect]"
proof -
  let ?evs = "[CallAdd taskOK, ClientStep 0, ClientStep 0, ParentCancel, WorkerRecv 0]"
  let ?w = "the (Weaver_from False 1 ?evs)"
  let ?w' = "the (Weaver_step (WorkerStep 0) ?w)"
  have r: "Weaver_from False 1 ?evs = Some ?w" by (simp add: weaver_defs)
  have st: "Weaver_step (WorkerStep 0) ?w = Some ?w'" by (simp add: weaver_defs)
  have len: "0 < length (workers ?w)" by (simp add: weaver_defs)
  have c: "workerCtx_cancelled ?w" by (simp add: weaver_defs)
  have x: "workers ?w ! 0 = WExecute taskOK" by (simp add: weaver_defs)
  have ws: "workers ?w = [WExecute taskOK]" by (simp add: weaver_defs)
  from no_task_starts_after_cancel[OF st len, of taskOK] c x
  have d: "Weaver_step (WorkerStep 0) ?w = Some (?w\<lparr>workers := (workers ?w)[0 := WSelect]\<rparr>)"
    by blast
  have e: "Weaver_from False 1 (?evs @ [WorkerStep 0]) = Weaver_step (WorkerStep 0) ?w"
    by (simp add: weaver_defs)
  from d e ws have "map_option workers (Weaver_from False 1 (?evs @ [WorkerStep 0])) = Some [WSelect]"
    by simp
  moreover from r c have "map_option workerCtx_cancelled (Weaver_from False 1 ?evs) = Some True"
    by (metis option.simps(9))
  moreover from r ws have "map_option workers (Weaver_from False 1 ?evs) = Some [WExecute taskOK]"
    by (metis option.simps(9))
  ultimately show ?thesis by simp
qed

section \<open>Sail without tasks\<close>

lemma Sail_append:
  "Sail (xs @ ys) s = (case Sail xs s of None \<Rightarrow> None | Some s' \<Rightarrow> Sail ys s')"
  by (induction xs arbitrary: s) (auto split: option.splits)

lemma no_tasks_init: "no_tasks_inv (Sail_init False [])"
  using Sail_inv_init[of False "[]"] by (simp add: no_tasks_inv_def Sail_init_def make_chan_def)

lemma no_tasks_step:
  assumes inv: "no_tasks_inv s" and ev: "ev \<noteq> Cancel" and st: "Sail_step ev s = Some s'"
  shows "no_tasks_inv s' \<and> Suc (steps_left s') = steps_left s"
proof -
  from inv have si: "Sail_inv s" and ts: "tasks s = []" and nc: "\<not> cancelled s"
    and buf: "ch_buf (errChan s) = []"
    and ret: "main s = MReturned None \<or> (\<forall>r. main s \<noteq> MReturned r)"
    and rc: "main s = MReturned None \<Longrightarrow> closer s = CDone"
    by (simp_all add: no_tasks_inv_def)
  note D = Sail_invD[OF si]
  from Sail_inv_step[OF si st] have si': "Sail_inv s'" .
  from st have ncr: "\<not> crashed s" by (simp add: Sail_step_def split: if_splits)
  show ?thesis
  proof (cases ev)
    case Cancel
    with ev show ?thesis by simp
  next
    case MainStep
    with st ncr have m: "main_step s = Some s'" by (simp add: Sail_step_def)
    then obtain i where i: "main s = MLoop i"
      by (cases "main s") (simp_all add: main_step_def)
    with m ts have s': "s' = s\<lparr>main := MSelect, closer := CWait\<rparr>"
      by (simp add: main_step_def)
    from si' s' ts nc buf i show ?thesis
      by (simp add: no_tasks_inv_def steps_left_def)
  next
    case SelectErr
    with st ncr have m: "select_err s = Some s'" by (simp add: Sail_step_def)
    then have ms: "main s = MSelect"
      by (cases "main s") (simp_all add: select_err_def)
    with m buf have cl: "ch_closed (errChan s)" and s': "s' = s\<lparr>main := MReturned None\<rparr>"
      by (simp_all add: select_err_def chan_recv_def split: if_splits)
    from cl D(7) have cd: "closer s = CDone" by simp
    from si' s' ts nc buf ms cd show ?thesis
      by (simp add: no_tasks_inv_def steps_left_def)
  next
    case SelectDone
    with st ncr nc show ?thesis
      by (cases "main s") (simp_all add: Sail_step_def select_done_def)
  next
    case (GoStep i)
    with st ncr ts show ?thesis
      by (simp add: Sail_step_def go_step_def)
  next
    case CloserStep
    with st ncr have m: "closer_step s = Some s'" by (simp add: Sail_step_def)
    show ?thesis
    proof (cases "closer s")
      case CIdle
      with m show ?thesis by (simp add: closer_step_def)
    next
      case CWait
      with m have s': "s' = s\<lparr>closer := CClose\<rparr>"
        by (simp add: closer_step_def split: if_splits)
      from CWait D(8) rc ret have ms: "main s = MSelect"
        by (cases "main s") auto
      from si' s' ts nc buf ms CWait show ?thesis
        by (simp add: no_tasks_inv_def steps_left_def)
    next
      case CClose
      from CClose D(7) have "\<not> ch_closed (errChan s)" by simp
      with m CClose have s': "s' = s\<lparr>errChan := (errChan s)\<lparr>ch_closed := True\<rparr>, closer := CDone\<rparr>"
        by (simp add: closer_step_def chan_close_def)
      from CClose D(8) rc ret have ms: "main s = MSelect"
        by (cases "main s") auto
      from si' s' ts nc buf ms CClose show ?thesis
        by (simp add: no_tasks_inv_def steps_left_def)
    next
      case CDone
      with m show ?thesis by (simp add: closer_step_def)
    qed
  qed
qed

lemma no_tasks_run:
  assumes "no_tasks_inv s" "Cancel \<notin> set evs" "Sail evs s = Some s'"
  shows "no_tasks_inv s' \<and> steps_left s' + length evs = steps_left s"
  using assms
proof (induction evs arbitrary: s)
  case Nil
  then show ?case by simp
next
  case (Cons ev evs)
  then obtain s1 where st: "Sail_step ev s = Some s1" and r: "Sail evs s1 = Some s'"
    by (cases "Sail_step ev s") auto
  from Cons.prems(2) have ev: "ev \<noteq> Cancel" and evs: "Cancel \<notin> set evs" by auto
  from no_tasks_step[OF Cons.prems(1) ev st] Cons.IH[OF _ evs r] show ?case by auto
qed

lemma no_tasks_completes:
  assumes inv: "no_tasks_inv s"
  shows "\<exists>evs. Cancel \<notin> set evs \<and> (\<exists>s'. Sail evs s = Some s' \<and> main s' = MReturned None) \<and>
               (evs \<noteq> [] \<longrightarrow> Sail_step (hd evs) s \<noteq> None)"
proof -
  from inv have si: "Sail_inv s" and ts: "tasks s = []" and nc: "\<not> cancelled s"
    and buf: "ch_buf (errChan s) = []"
    and ret: "main s = MReturned None \<or> (\<forall>r. main s \<noteq> MReturned r)"
    by (simp_all add: no_tasks_inv_def)
  note D = Sail_invD[OF si]
  from D(1) ts have gs: "gos s = []" by simp
  with D(2) have wz: "wg s = 0" by (simp add: count_if_Nil)
  have fin: "\<And>t. main t = MSelect \<Longrightarrow> closer t = CDone \<Longrightarrow> ch_closed (errChan t) \<Longrightarrow>
      ch_buf (errChan t) = [] \<Longrightarrow> \<not> crashed t \<Longrightarrow>
      Sail_step SelectErr t = Some (t\<lparr>main := MReturned None\<rparr>)"
    by (simp add: Sail_step_def select_err_def chan_recv_def)
  have cls: "\<And>t. main t = MSelect \<Longrightarrow> closer t = CClose \<Longrightarrow> \<not> ch_closed (errChan t) \<Longrightarrow>
      ch_buf (errChan t) = [] \<Longrightarrow> \<not> crashed t \<Longrightarrow>
      Sail [CloserStep, SelectErr] t =
        Some (t\<lparr>errChan := (errChan t)\<lparr>ch_closed := True\<rparr>, closer := CDone, main := MReturned None\<rparr>)"
    by (simp add: Sail_step_def closer_step_def chan_close_def select_err_def chan_recv_def)
  have wt: "\<And>t. main t = MSelect \<Longrightarrow> closer t = CWait \<Longrightarrow> \<not> ch_closed (errChan t) \<Longrightarrow>
      ch_buf (errChan t) = [] \<Longrightarrow> \<not> crashed t \<Longrightarrow> wg t = 0 \<Longrightarrow>
      Sail [CloserStep, CloserStep, SelectErr] t =
        Some (t\<lparr>errChan := (errChan t)\<lparr>ch_closed := True\<rparr>, closer := CDone, main := MReturned None\<rparr>)"
    by (simp add: Sail_step_def closer_step_def chan_close_def select_err_def chan_recv_def)
  show ?thesis
  proof (cases "main s")
    case (MLoop i)
    with D(8) have ci: "closer s = CIdle" by simp
    with D(7) have ncl: "\<not> ch_closed (errChan s)" by simp
    from MLoop ts D(10) have ms: "Sail_step MainStep s = Some (s\<lparr>main := MSelect, closer := CWait\<rparr>)"
      by (simp add: Sail_step_def main_step_def)
    from wt[of "s\<lparr>main := MSelect, closer := CWait\<rparr>"] ncl buf D(10) wz ms
    have "Sail [MainStep, CloserStep, CloserStep, SelectErr] s =
        Some (s\<lparr>errChan := (errChan s)\<lparr>ch_closed := True\<rparr>, closer := CDone, main := MReturned None\<rparr>)"
      by simp
    with ms show ?thesis
      by (intro exI[of _ "[MainStep, CloserStep, CloserStep, SelectErr]"]) simp
  next
    case MSelect
    show ?thesis
    proof (cases "closer s")
      case CIdle
      with D(8) MSelect show ?thesis by simp
    next
      case CWait
      with D(7) have ncl: "\<not> ch_closed (errChan s)" by simp
      from wt[OF MSelect CWait ncl buf D(10) wz]
      have r: "Sail [CloserStep, CloserStep, SelectErr] s =
        Some (s\<lparr>errChan := (errChan s)\<lparr>ch_closed := True\<rparr>, closer := CDone, main := MReturned None\<rparr>)" .
      from CWait wz D(10) have "Sail_step CloserStep s \<noteq> None"
        by (simp add: Sail_step_def closer_step_def)
      with r show ?thesis
        by (intro exI[of _ "[CloserStep, CloserStep, SelectErr]"]) simp
    next
      case CClose
      with D(7) have ncl: "\<not> ch_closed (errChan s)" by simp
      from cls[OF MSelect CClose ncl buf D(10)]
      have r: "Sail [CloserStep, SelectErr] s =
        Some (s\<lparr>errChan := (errChan s)\<lparr>ch_closed := True\<rparr>, closer := CDone, main := MReturned None\<rparr>)" .
      from CClose ncl D(10) have "Sail_step CloserStep s \<noteq> None"
        by (simp add: Sail_step_def closer_step_def chan_close_def)
      with r show ?thesis
        by (intro exI[of _ "[CloserStep, SelectErr]"]) simp
    next
      case CDone
      with D(7) have cl: "ch_closed (errChan s)" by simp
      from fin[OF MSelect CDone cl buf D(10)] show ?thesis
        by (intro exI[of _ "[SelectErr]"]) simp
    qed
  next
    case (MReturned r)
    with ret have "main s = MReturned None" by auto
    then show ?thesis by (intro exI[of _ "[]"]) simp
  qed
qed

text \<open>
  Claim C10. \<^verbatim>\<open>Sail\<close> with an empty task list and a context that is not cancelled, before or
  during the call. Every run is free of crashes and has at most four steps; the call
  cannot have returned anything but \<^verbatim>\<open>nil\<close>; from every state of a run the call can still
  be brought to return \<^verbatim>\<open>nil\<close>; and as long as it has not returned \<^verbatim>\<open>nil\<close>, some goroutine
  can take a step. So every run that is continued as long as possible ends, after four steps,
  with the return of \<^verbatim>\<open>nil\<close>.
\<close>

theorem Sail_no_tasks:
  assumes nocancel: "Cancel \<notin> set evs" and run: "Sail evs (Sail_init False []) = Some s"
  shows "\<not> crashed s \<and> length evs \<le> 4 \<and>
         (main s = MReturned None \<or> (\<forall>r. main s \<noteq> MReturned r)) \<and>
         (\<exists>evs'. Cancel \<notin> set evs' \<and> Sail_result (evs @ evs') (Sail_init False []) = Some None) \<and>
         (main s = MReturned None \<or> (\<exists>ev. ev \<noteq> Cancel \<and> Sail_step ev s \<noteq> None))"
proof -
  from no_tasks_run[OF no_tasks_init nocancel run]
  have inv: "no_tasks_inv s" and len: "steps_left s + length evs = steps_left (Sail_init False [])"
    by simp_all
  from inv have si: "Sail_inv s" by (simp add: no_tasks_inv_def)
  have "steps_left (Sail_init False []) = 4" by (simp add: steps_left_def Sail_init_def)
  with len have l4: "length evs \<le> 4" by simp
  from no_tasks_completes[OF inv] obtain evs' s' where
    c: "Cancel \<notin> set evs'" "Sail evs' s = Some s'" "main s' = MReturned None"
    and h: "evs' \<noteq> [] \<longrightarrow> Sail_step (hd evs') s \<noteq> None"
    by blast
  from c run have res: "Sail_result (evs @ evs') (Sail_init False []) = Some None"
    by (simp add: Sail_result_def Sail_append)
  have en: "main s = MReturned None \<or> (\<exists>ev. ev \<noteq> Cancel \<and> Sail_step ev s \<noteq> None)"
  proof (cases evs')
    case Nil
    with c show ?thesis by simp
  next
    case (Cons e es)
    with c(1) h have "e \<noteq> Cancel" "Sail_step e s \<noteq> None" by auto
    then show ?thesis by blast
  qed
  from inv have "main s = MReturned None \<or> (\<forall>r. main s \<noteq> MReturned r)"
    by (simp add: no_tasks_inv_def)
  with Sail_invD(10)[OF si] l4 c(1) res en show ?thesis by blast
qed

text \<open>The one complete run.\<close>

theorem Sail_no_tasks_witness:
  "Cancel \<notin> set [MainStep, CloserStep, CloserStep, SelectErr] \<and>
   Sail_result [MainStep, CloserStep, CloserStep, SelectErr] (Sail_init False []) = Some None \<and>
   length [MainStep, CloserStep, CloserStep, SelectErr] \<le> (4::nat)"
proof -
  let ?evs = "[MainStep, CloserStep, CloserStep, SelectErr]"
  have a: "Cancel \<notin> set ?evs" by simp
  have b: "Sail ?evs (Sail_init False []) = Some (the (Sail ?evs (Sail_init False [])))"
    by (simp add: sail_defs)
  have c: "Sail_result ?evs (Sail_init False []) = Some None"
    by (simp add: sail_defs)
  from Sail_no_tasks[OF a b] a c show ?thesis by simp
qed

section \<open>The failure slot\<close>

lemma sendErr_frame:
  assumes "sendErr e s = Ok t \<or> sendErr e s = Panic t"
  shows "tasks t = tasks s \<and> gos t = gos s \<and> once t"
  using assms by (auto simp: sendErr_def split: if_splits sent.splits)

lemma sendErr_written:
  assumes "once s"
  shows "sendErr e s = Ok s"
  using assms by (simp add: sendErr_def)


lemma go_step_frame:
  assumes st: "go_step i s = Some s'"
  shows "tasks s' = tasks s \<and>
         (once s \<longrightarrow> once s' \<and> errChan s' = errChan s)"
proof -
  from st have len: "i < length (gos s)" "i < length (tasks s)"
    by (simp_all add: go_step_def split: if_splits)
  show ?thesis
  proof (cases "gos s ! i")
    case GReady
    with st len show ?thesis
      by (cases "(tasks s ! i) (cancelled s)") (auto simp: go_step_def split: option.splits)
  next
    case (GSend e)
    show ?thesis
    proof (cases "sendErr e s")
      case (Ok t)
      with st len GSend have "s' = t\<lparr>gos := (gos s)[i := GFin]\<rparr>" by (simp add: go_step_def)
      with Ok sendErr_frame[of e s t] sendErr_written[of s e] show ?thesis by auto
    next
      case Block
      with st len GSend show ?thesis by (simp add: go_step_def)
    next
      case (Panic t)
      with st len GSend
      have "s' = t\<lparr>gos := (gos s)[i := GRecover (panic_error ''send on closed channel'')]\<rparr>"
        by (simp add: go_step_def)
      with Panic sendErr_frame[of e s t] sendErr_written[of s e] show ?thesis by auto
    qed
  next
    case (GRecover e)
    show ?thesis
    proof (cases "sendErr e s")
      case (Ok t)
      with st len GRecover have "s' = t\<lparr>gos := (gos s)[i := GFin]\<rparr>" by (simp add: go_step_def)
      with Ok sendErr_frame[of e s t] sendErr_written[of s e] show ?thesis by auto
    next
      case Block
      with st len GRecover show ?thesis by (simp add: go_step_def)
    next
      case (Panic t)
      with st len GRecover have "s' = t\<lparr>crashed := True\<rparr>" by (simp add: go_step_def)
      with Panic sendErr_frame[of e s t] sendErr_written[of s e] show ?thesis by auto
    qed
  next
    case GFin
    with st len show ?thesis by (auto simp: go_step_def wg_Done_def)
  next
    case GIdle
    with st len show ?thesis by (simp add: go_step_def)
  next
    case GSkipped
    with st len show ?thesis by (simp add: go_step_def)
  next
    case GDone
    with st len show ?thesis by (simp add: go_step_def)
  qed
qed

lemma Sail_step_frame:
  assumes st: "Sail_step ev s = Some s'"
  shows "tasks s' = tasks s \<and>
         (once s \<longrightarrow> once s' \<and> suffix (ch_buf (errChan s')) (ch_buf (errChan s)))"
proof (cases ev)
  case Cancel
  with st show ?thesis by (auto simp: Sail_step_def split: if_splits)
next
  case MainStep
  with st have "main_step s = Some s'" by (simp add: Sail_step_def split: if_splits)
  then show ?thesis
    by (cases "main s") (auto simp: main_step_def wg_Done_def split: if_splits)
next
  case SelectErr
  with st have "select_err s = Some s'" by (simp add: Sail_step_def split: if_splits)
  then show ?thesis
    by (cases "main s"; cases "ch_buf (errChan s)")
       (auto simp: select_err_def chan_recv_def suffix_Cons split: if_splits)
next
  case SelectDone
  with st have "select_done s = Some s'" by (simp add: Sail_step_def split: if_splits)
  then show ?thesis
    by (cases "main s") (auto simp: select_done_def split: if_splits)
next
  case (GoStep i)
  with st have "go_step i s = Some s'" by (simp add: Sail_step_def split: if_splits)
  from go_step_frame[OF this] show ?thesis by auto
next
  case CloserStep
  with st have "closer_step s = Some s'" by (simp add: Sail_step_def split: if_splits)
  then show ?thesis
    by (cases "closer s") (auto simp: closer_step_def chan_close_def split: if_splits)
qed

lemma Sail_run_frame:
  assumes "Sail evs s = Some s'"
  shows "tasks s' = tasks s \<and>
         (once s \<longrightarrow> once s' \<and> suffix (ch_buf (errChan s')) (ch_buf (errChan s)))"
  using assms
proof (induction evs arbitrary: s)
  case Nil
  then show ?case by simp
next
  case (Cons ev evs)
  then obtain s1 where st: "Sail_step ev s = Some s1" and r: "Sail evs s1 = Some s'"
    by (cases "Sail_step ev s") auto
  from Sail_step_frame[OF st] Cons.IH[OF r] show ?case
    by (auto intro: suffix_order.trans)
qed

lemma Sail_reach_inv:
  assumes "Sail evs (Sail_init c ts) = Some s"
  shows "Sail_inv s \<and> tasks s = ts"
  using Sail_inv_run[OF Sail_inv_init assms] Sail_run_frame[OF assms]
  by (simp add: Sail_init_def)








lemma Weaver_sendErr_first:
  assumes inv: "Weaver_inv w" and len: "i < length (workers w)"
    and pc: "workers w ! i = WSend e \<or> workers w ! i = WRecover e" and un: "\<not> w_errOnce w"
  shows "Weaver_sendErr e w = Ok (w\<lparr>w_errOnce := True, w_errChan := (w_errChan w)\<lparr>ch_buf := [e]\<rparr>\<rparr>)"
proof -
  from pc have a: "alive (workers w ! i)" by auto
  note D = Weaver_invD[OF inv]
  note O = Weaver_alive_open[OF inv len a]
  from un D(2,3) O(2) show ?thesis
    by (auto simp: Weaver_sendErr_def chan_send_def)
qed


section \<open>Panics of tasks\<close>


lemma Sail_panic_contained:
  assumes r: "Sail evs (Sail_init c ts) = Some s" and i: "i < length ts"
    and pc: "gos s ! i = GReady" and p: "(ts ! i) (cancelled s) = Panics x"
  shows "\<exists>s'. Sail [GoStep i, GoStep i] s = Some s' \<and> gos s' ! i = GFin \<and> once s' \<and>
              \<not> crashed s' \<and> (once s \<or> ch_buf (errChan s') = [panic_error x])"
proof -
  from Sail_reach_inv[OF r] have inv: "Sail_inv s" and ts: "tasks s = ts" by simp_all
  note D = Sail_invD[OF inv]
  from D(1) ts i have len: "i < length (gos s)" by simp
  let ?s1 = "s\<lparr>gos := (gos s)[i := GRecover (panic_error x)]\<rparr>"
  from pc p ts i len D(10) have st1: "Sail_step (GoStep i) s = Some ?s1"
    by (simp add: Sail_step_def go_step_def)
  from Sail_inv_step[OF inv st1] have inv1: "Sail_inv ?s1" .
  from len have len1: "i < length (gos ?s1)" and pc1: "gos ?s1 ! i = GRecover (panic_error x)"
    by simp_all
  from pc1 have a1: "active (gos ?s1 ! i)" by simp
  let ?t = "if once ?s1 then ?s1
            else ?s1\<lparr>once := True, errChan := (errChan ?s1)\<lparr>ch_buf := [panic_error x]\<rparr>\<rparr>"
  from sendErr_live[OF inv1 len1 a1, of "panic_error x"]
  have se: "sendErr (panic_error x) ?s1 = Ok ?t" .
  let ?s2 = "?t\<lparr>gos := (gos ?s1)[i := GFin]\<rparr>"
  from se pc1 len1 ts i D(10) have st2: "Sail_step (GoStep i) ?s1 = Some ?s2"
    by (simp add: Sail_step_def go_step_def)
  from st1 st2 have run: "Sail [GoStep i, GoStep i] s = Some ?s2" by simp
  from Sail_inv_step[OF inv1 st2] have "Sail_inv ?s2" .
  then have nc: "\<not> crashed ?s2" by (rule Sail_invD(10))
  from len have g: "gos ?s2 ! i = GFin" by simp
  have o: "once ?s2" by simp
  have b: "once s \<or> ch_buf (errChan ?s2) = [panic_error x]" by simp
  from run g o nc b show ?thesis by blast
qed

lemma Weaver_panic_contained:
  assumes r: "Weaver_from c n evs = Some w" and i: "i < length (workers w)"
    and pc: "workers w ! i = WRunning t" and p: "t (workerCtx_cancelled w) = Panics x"
  shows "\<exists>w'. Weaver [WorkerStep i, WorkerStep i] w = Some w' \<and> workers w' ! i = WSelect \<and>
              w_errOnce w' \<and> \<not> w_crashed w' \<and>
              (w_errOnce w \<or> ch_buf (w_errChan w') = [panic_error x])"
proof -
  from Weaver_from_inv[OF r] have inv: "Weaver_inv w" .
  note D = Weaver_invD[OF inv]
  let ?w1 = "w\<lparr>workers := (workers w)[i := WRecover (panic_error x)]\<rparr>"
  from pc p i D(10) have st1: "Weaver_step (WorkerStep i) w = Some ?w1"
    by (simp add: Weaver_step_def execute_def)
  from Weaver_inv_step[OF inv st1] have inv1: "Weaver_inv ?w1" .
  note D1 = Weaver_invD[OF inv1]
  from i have len1: "i < length (workers ?w1)"
    and pc1: "workers ?w1 ! i = WRecover (panic_error x)" by simp_all
  show ?thesis
  proof (cases "w_errOnce w")
    case True
    then have "Weaver_sendErr (panic_error x) ?w1 = Ok ?w1"
      by (simp add: Weaver_sendErr_def)
    with pc1 len1 D(10)
    have st2: "Weaver_step (WorkerStep i) ?w1 = Some (?w1\<lparr>workers := (workers ?w1)[i := WSelect]\<rparr>)"
      by (simp add: Weaver_step_def execute_def)
    from Weaver_inv_step[OF inv1 st2] have "\<not> w_crashed (?w1\<lparr>workers := (workers ?w1)[i := WSelect]\<rparr>)"
      by (rule Weaver_invD(10))
    with st1 st2 True i show ?thesis by simp
  next
    case False
    let ?t = "?w1\<lparr>w_errOnce := True, w_errChan := (w_errChan ?w1)\<lparr>ch_buf := [panic_error x]\<rparr>\<rparr>"
    from False have un: "\<not> w_errOnce ?w1" by simp
    from Weaver_sendErr_first[OF inv1 len1 _ un, of "panic_error x"] pc1
    have "Weaver_sendErr (panic_error x) ?w1 = Ok ?t" by simp
    with pc1 len1 D(10)
    have st2: "Weaver_step (WorkerStep i) ?w1 = Some (?t\<lparr>workers := (workers ?w1)[i := WSelect]\<rparr>)"
      by (simp add: Weaver_step_def execute_def)
    from Weaver_inv_step[OF inv1 st2] have "\<not> w_crashed (?t\<lparr>workers := (workers ?w1)[i := WSelect]\<rparr>)"
      by (rule Weaver_invD(10))
    with st1 st2 i show ?thesis by simp
  qed
qed

text \<open>
  Claim C7. The error made from a recovered panic has the text \<^verbatim>\<open>panic recovered: \<close> followed
  by the payload. No run of \<^verbatim>\<open>Sail\<close> and no run of a pool crashes the process, whatever the
  tasks do. When a task panics, its goroutine (its worker) takes two more steps, the
  recovery and \<^verbatim>\<open>sendErr\<close> of that error, and goes on normally, to \<^verbatim>\<open>wg.Done()\<close> (to the
  \<^verbatim>\<open>select\<close> of the worker loop); the error is then the value of the slot unless the slot was
  written before.
\<close>

theorem panic_contained:
  "(\<exists>m. panic_error x = Err m \<and> prefix ''panic recovered: '' m \<and> suffix x m) \<and>
   (Sail evs (Sail_init c ts) = Some s \<longrightarrow>
      \<not> crashed s \<and>
      (i < length ts \<and> gos s ! i = GReady \<and> (ts ! i) (cancelled s) = Panics x \<longrightarrow>
         (\<exists>s'. Sail [GoStep i, GoStep i] s = Some s' \<and> gos s' ! i = GFin \<and> once s' \<and>
               \<not> crashed s' \<and> (once s \<or> ch_buf (errChan s') = [panic_error x])))) \<and>
   (Weaver_from b n wevs = Some w \<longrightarrow>
      \<not> w_crashed w \<and>
      (j < length (workers w) \<and> workers w ! j = WRunning t \<and>
       t (workerCtx_cancelled w) = Panics x \<longrightarrow>
         (\<exists>w'. Weaver [WorkerStep j, WorkerStep j] w = Some w' \<and> workers w' ! j = WSelect \<and>
               w_errOnce w' \<and> \<not> w_crashed w' \<and>
               (w_errOnce w \<or> ch_buf (w_errChan w') = [panic_error x]))))"
proof (intro conjI impI)
  have "prefix ''panic recovered: '' (''panic recovered: '' @ x)" by (rule prefixI[OF refl])
  moreover have "suffix x (''panic recovered: '' @ x)" by (rule suffixI[OF refl])
  ultimately show "\<exists>m. panic_error x = Err m \<and> prefix ''panic recovered: '' m \<and> suffix x m"
    unfolding panic_error_def by blast
next
  assume r: "Sail evs (Sail_init c ts) = Some s"
  from Sail_reach_inv[OF r] show "\<not> crashed s" by (simp add: Sail_invD(10))
  show "\<exists>s'. Sail [GoStep i, GoStep i] s = Some s' \<and> gos s' ! i = GFin \<and> once s' \<and>
               \<not> crashed s' \<and> (once s \<or> ch_buf (errChan s') = [panic_error x])"
    if "i < length ts \<and> gos s ! i = GReady \<and> (ts ! i) (cancelled s) = Panics x"
    using that Sail_panic_contained[OF r, of i x] by blast
next
  assume r: "Weaver_from b n wevs = Some w"
  from Weaver_from_inv[OF r] show "\<not> w_crashed w" by (rule Weaver_invD(10))
  show "\<exists>w'. Weaver [WorkerStep j, WorkerStep j] w = Some w' \<and> workers w' ! j = WSelect \<and>
               w_errOnce w' \<and> \<not> w_crashed w' \<and>
               (w_errOnce w \<or> ch_buf (w_errChan w') = [panic_error x])"
    if "j < length (workers w) \<and> workers w ! j = WRunning t \<and>
       t (workerCtx_cancelled w) = Panics x"
    using that Weaver_panic_contained[OF r, of j t x] by blast
qed

lemma Sail_append_Some:
  assumes "Sail xs s = Some s1"
  shows "Sail (xs @ ys) s = Sail ys s1"
  using assms by (simp add: Sail_append)

lemma Weaver_append:
  "Weaver (xs @ ys) w = (case Weaver xs w of None \<Rightarrow> None | Some w' \<Rightarrow> Weaver ys w')"
  by (induction xs arbitrary: w) (auto split: option.splits)

lemma Weaver_from_append:
  assumes "Weaver_from c n evs = Some w"
  shows "Weaver_from c n (evs @ ys) = Weaver ys w"
  using assms
  by (cases "NewWeaver c n") (simp_all add: Weaver_from_def Weaver_append)

text \<open>
  The panicking tasks of \<^verbatim>\<open>TestSail_Panic\<close> and \<^verbatim>\<open>TestWeaver_Panic\<close>: the caller of \<^verbatim>\<open>Sail\<close>
  and the caller of \<^verbatim>\<open>Wait\<close> get the error made from the payload.
\<close>

theorem panic_contained_witness:
  "Sail_slot [MainStep, MainStep, MainStep, MainStep, GoStep 1, GoStep 1]
     (Sail_init False [taskOK, taskPanic ''something went wrong'', taskOK])
     = Some [Err ''panic recovered: something went wrong''] \<and>
   Sail_result [MainStep, MainStep, MainStep, MainStep, GoStep 1, GoStep 1, SelectErr]
     (Sail_init False [taskOK, taskPanic ''something went wrong'', taskOK])
     = Some (Some (Err ''panic recovered: something went wrong'')) \<and>
   Weaver_slot False 1
        [CallAdd (taskPanic ''worker panic''), ClientStep 0, ClientStep 0,
         WorkerRecv 0, WorkerStep 0, WorkerStep 0, WorkerStep 0]
     = Some [Err ''panic recovered: worker panic''] \<and>
   map_option calls
     (Weaver_from False 1
        [CallAdd (taskPanic ''worker panic''), ClientStep 0, ClientStep 0,
         WorkerRecv 0, WorkerStep 0, WorkerStep 0, WorkerStep 0,
         CallWait, ClientStep 1, ClientStep 1, ClientStep 1, WorkerRecv 0, WorkerStep 0,
         ClientStep 1, ClientStep 1, ClientStep 1, ClientStep 1])
     = Some [AddReturned None, WaitReturned (Some (Err ''panic recovered: worker panic''))]"
proof -
  let ?ts = "[taskOK, taskPanic ''something went wrong'', taskOK]"
  let ?evs = "[MainStep, MainStep, MainStep, MainStep]"
  let ?I = "Sail_init False ?ts"
  let ?s = "the (Sail ?evs ?I)"
  have r: "Sail ?evs ?I = Some ?s" by (simp add: sail_defs)
  have h: "1 < length ?ts \<and> gos ?s ! 1 = GReady \<and>
           (?ts ! 1) (cancelled ?s) = Panics ''something went wrong''"
    by (simp add: sail_defs)
  have un: "\<not> once ?s" by (simp add: sail_defs)
  note pc = panic_contained[of "''something went wrong''" ?evs False ?ts ?s 1]
  note sail_part = mp[OF conjunct1[OF conjunct2[OF pc]] r]
  from mp[OF conjunct2[OF sail_part] h]
  obtain s' where s': "Sail [GoStep 1, GoStep 1] ?s = Some s'"
    and b: "once ?s \<or> ch_buf (errChan s') = [panic_error ''something went wrong'']"
    by (elim exE conjE)
  from b un have b': "ch_buf (errChan s') = [panic_error ''something went wrong'']" by blast
  from trans[OF Sail_append_Some[OF r, of "[GoStep 1, GoStep 1]"] s']
  have "Sail (?evs @ [GoStep 1, GoStep 1]) ?I = Some s'" .
  with b' have f1: "Sail_slot (?evs @ [GoStep 1, GoStep 1]) ?I
      = Some [Err ''panic recovered: something went wrong'']"
    by (simp only: Sail_slot_def option.case panic_error_def append.simps)
  have f2: "Sail_result (?evs @ [GoStep 1, GoStep 1, SelectErr]) ?I
      = Some (Some (Err ''panic recovered: something went wrong''))"
    by (simp add: sail_defs)
  let ?wevs = "[CallAdd (taskPanic ''worker panic''), ClientStep 0, ClientStep 0,
         WorkerRecv 0, WorkerStep 0]"
  let ?w = "the (Weaver_from False 1 ?wevs)"
  have wr: "Weaver_from False 1 ?wevs = Some ?w" by (simp add: weaver_defs)
  have wh: "0 < length (workers ?w) \<and> workers ?w ! 0 = WRunning (taskPanic ''worker panic'') \<and>
            (taskPanic ''worker panic'') (workerCtx_cancelled ?w) = Panics ''worker panic''"
    by (simp add: weaver_defs)
  have wun: "\<not> w_errOnce ?w" by (simp add: weaver_defs)
  note wpc = panic_contained[of "''worker panic''" _ _ _ _ _ False 1 ?wevs ?w 0
      "taskPanic ''worker panic''"]
  note weaver_part = mp[OF conjunct2[OF conjunct2[OF wpc]] wr]
  from mp[OF conjunct2[OF weaver_part] wh]
  obtain w' where w': "Weaver [WorkerStep 0, WorkerStep 0] ?w = Some w'"
    and wb: "w_errOnce ?w \<or> ch_buf (w_errChan w') = [panic_error ''worker panic'']"
    by (elim exE conjE)
  from wb wun have wb': "ch_buf (w_errChan w') = [panic_error ''worker panic'']" by blast
  from trans[OF Weaver_from_append[OF wr, of "[WorkerStep 0, WorkerStep 0]"] w']
  have wa: "Weaver_from False 1 (?wevs @ [WorkerStep 0, WorkerStep 0]) = Some w'" .
  with wb' have f3: "Weaver_slot False 1 (?wevs @ [WorkerStep 0, WorkerStep 0])
      = Some [Err ''panic recovered: worker panic'']"
    by (simp only: Weaver_slot_def option.case panic_error_def append.simps)
  have f4: "map_option calls
     (Weaver_from False 1
        (?wevs @ [WorkerStep 0, WorkerStep 0,
         CallWait, ClientStep 1, ClientStep 1, ClientStep 1, WorkerRecv 0, WorkerStep 0,
         ClientStep 1, ClientStep 1, ClientStep 1, ClientStep 1]))
     = Some [AddReturned None, WaitReturned (Some (Err ''panic recovered: worker panic''))]"
    by (simp add: weaver_defs)
  from f1 f2 f3 f4 show ?thesis by (simp only: append.simps)
qed

end
